theory Spec2Isabelle
  imports Main "HOL-Library.Sublist"
begin

section \<open>Text and the pattern matcher the module relies on\<close>

text \<open>
  The module \<^verbatim>\<open>wiki_data_processor.py\<close> works on Python \<^verbatim>\<open>str\<close> values with the
  \<^verbatim>\<open>re\<close> module. A string is a \<^typ>\<open>string\<close>: every \<^typ>\<open>char\<close> stands for the
  code point of the same number (0 to 255). The patterns of the module use only
  literals, character classes, a quantifier on a single character or class, an optional
  literal group, one capture group and the anchors; the matcher below is the
  backtracking matcher of \<^verbatim>\<open>re\<close> on that fragment: each node of a pattern offers the
  lengths it can consume in its order of preference, and the first choice under which
  the rest of the pattern matches wins.
\<close>

definition isspace :: "char \<Rightarrow> bool" where
  \<comment> \<open>\<^verbatim>\<open>str.isspace\<close> and the class \<^verbatim>\<open>\s\<close> of a \<^verbatim>\<open>str\<close> pattern, on code points below 256.\<close>
  "isspace c = (c \<in> set [CHR 0x09, CHR 0x0A, CHR 0x0B, CHR 0x0C, CHR 0x0D,
                           CHR 0x1C, CHR 0x1D, CHR 0x1E, CHR 0x1F, CHR 0x20,
                           CHR 0x85, CHR 0xA0])"

definition ord :: "char \<Rightarrow> nat" where
  \<comment> \<open>the code point of a character\<close>
  "ord c = of_char c"

definition lower_char :: "char \<Rightarrow> char" where
  \<comment> \<open>lower case of an ASCII letter; every other character is kept.\<close>
  "lower_char c = (if ord CHR ''A'' \<le> ord c \<and> ord c \<le> ord CHR ''Z'' then char_of (ord c + 32) else c)"

definition upper_char :: "char \<Rightarrow> char" where
  \<comment> \<open>upper case of an ASCII letter; every other character is kept.\<close>
  "upper_char c = (if ord CHR ''a'' \<le> ord c \<and> ord c \<le> ord CHR ''z'' then char_of (ord c - 32) else c)"

datatype item =
    SpaceItem               \<comment> \<open>\<^verbatim>\<open>\s\<close> inside brackets\<close>
  | NonSpaceItem            \<comment> \<open>\<^verbatim>\<open>\S\<close> inside brackets\<close>
  | CharItem char           \<comment> \<open>one character inside brackets\<close>
  | RangeItem char char     \<comment> \<open>a range \<^verbatim>\<open>a-b\<close> inside brackets\<close>

fun item_has :: "item \<Rightarrow> char \<Rightarrow> bool" where
  "item_has SpaceItem c = isspace c"
| "item_has NonSpaceItem c = (\<not> isspace c)"
| "item_has (CharItem d) c = (c = d)"
| "item_has (RangeItem lo hi) c = (ord lo \<le> ord c \<and> ord c \<le> ord hi)"

datatype atom =
    Lit char                \<comment> \<open>a literal character\<close>
  | LitI char               \<comment> \<open>a literal character under \<^verbatim>\<open>re.IGNORECASE\<close>\<close>
  | Dot                     \<comment> \<open>\<^verbatim>\<open>.\<close>: any character but the newline\<close>
  | DotAll                  \<comment> \<open>\<^verbatim>\<open>.\<close> under \<^verbatim>\<open>re.DOTALL\<close>\<close>
  | Space                   \<comment> \<open>\<^verbatim>\<open>\s\<close>\<close>
  | Cls "item list"         \<comment> \<open>\<^verbatim>\<open>[...]\<close>\<close>
  | NCls "item list"        \<comment> \<open>\<^verbatim>\<open>[^...]\<close>\<close>

fun accepts :: "atom \<Rightarrow> char \<Rightarrow> bool" where
  "accepts (Lit d) c = (c = d)"
| "accepts (LitI d) c = (lower_char c = lower_char d)"
| "accepts Dot c = (c \<noteq> CHR 0x0A)"
| "accepts DotAll c = True"
| "accepts Space c = isspace c"
| "accepts (Cls is) c = (\<exists>i \<in> set is. item_has i c)"
| "accepts (NCls is) c = (\<not> (\<exists>i \<in> set is. item_has i c))"

datatype node =
    One atom                \<comment> \<open>the atom, once\<close>
  | Star atom               \<comment> \<open>\<^verbatim>\<open>a*\<close>, greedy\<close>
  | StarLazy atom           \<comment> \<open>\<^verbatim>\<open>a*?\<close>\<close>
  | Plus atom               \<comment> \<open>\<^verbatim>\<open>a+\<close>, greedy\<close>
  | Opt "atom list"         \<comment> \<open>\<^verbatim>\<open>(?:abc)?\<close> and \<^verbatim>\<open>a?\<close>, greedy\<close>
  | Bol                     \<comment> \<open>\<^verbatim>\<open>^\<close> without \<^verbatim>\<open>re.MULTILINE\<close>\<close>
  | Eol                     \<comment> \<open>\<^verbatim>\<open>$\<close> without \<^verbatim>\<open>re.MULTILINE\<close>\<close>

type_synonym pattern = "node list"

fun lits :: "string \<Rightarrow> pattern" where
  "lits s = map (\<lambda>c. One (Lit c)) s"

fun litsI :: "string \<Rightarrow> atom list" where
  "litsI s = map LitI s"

fun accepts_all :: "atom list \<Rightarrow> string \<Rightarrow> bool" where
  "accepts_all [] s = True"
| "accepts_all (a # as) [] = False"
| "accepts_all (a # as) (c # cs) = (accepts a c \<and> accepts_all as cs)"

definition run :: "atom \<Rightarrow> string \<Rightarrow> nat" where
  \<comment> \<open>how many characters at the front of the text the atom accepts in a row\<close>
  "run a s = length (takeWhile (accepts a) s)"

fun spans :: "node \<Rightarrow> bool \<Rightarrow> string \<Rightarrow> nat list" where
  "spans (One a) bol s = (case s of [] \<Rightarrow> [] | c # _ \<Rightarrow> if accepts a c then [1] else [])"
| "spans (Star a) bol s = rev [0 ..< Suc (run a s)]"
| "spans (StarLazy a) bol s = [0 ..< Suc (run a s)]"
| "spans (Plus a) bol s = rev [1 ..< Suc (run a s)]"
| "spans (Opt as) bol s = (if accepts_all as s then [length as, 0] else [0])"
| "spans Bol bol s = (if bol then [0] else [])"
| "spans Eol bol s = (if s = [] \<or> s = [CHR 0x0A] then [0] else [])"

fun tries :: "(nat \<Rightarrow> 'a option) \<Rightarrow> nat list \<Rightarrow> 'a option" where
  "tries f [] = None"
| "tries f (k # ks) = (case f k of Some r \<Rightarrow> Some r | None \<Rightarrow> tries f ks)"

fun push :: "string \<Rightarrow> (string list \<times> string) option \<Rightarrow> (string list \<times> string) option" where
  "push p None = None"
| "push p (Some (ps, rest)) = Some (p # ps, rest)"

text \<open>
  \<open>match_at p bol s\<close> matches the pattern at the front of \<open>s\<close>; \<open>bol\<close> says that
  \<open>s\<close> is the whole text (the position is 0). The result is the text each node
  consumed, in the order of the nodes, and the text left after the match.
\<close>

fun match_at :: "pattern \<Rightarrow> bool \<Rightarrow> string \<Rightarrow> (string list \<times> string) option" where
  "match_at [] bol s = Some ([], s)"
| "match_at (n # p) bol s =
     tries (\<lambda>k. push (take k s) (match_at p (bol \<and> k = 0) (drop k s))) (spans n bol s)"

declare match_at.simps(2) [simp del]

text \<open>\<^verbatim>\<open>re.search\<close>: the first position where the pattern matches; the text before the
  match, the pieces of the match and the text after it.\<close>

fun re_search :: "pattern \<Rightarrow> bool \<Rightarrow> string \<Rightarrow> (string \<times> string list \<times> string) option" where
  "re_search p bol [] = map_option (\<lambda>(ps, rest). ([], ps, rest)) (match_at p bol [])"
| "re_search p bol (c # cs) =
     (case match_at p bol (c # cs) of
        Some (ps, rest) \<Rightarrow> Some ([], ps, rest)
      | None \<Rightarrow> map_option (\<lambda>(pre, ps, rest). (c # pre, ps, rest)) (re_search p False cs))"

text \<open>The replacement templates of the module: a fixed text (\<^verbatim>\<open>''\<close>, \<^verbatim>\<open>' '\<close>,
  \<^verbatim>\<open>'\n\n'\<close>) or \<^verbatim>\<open>\1\<close>. In the one pattern with a group (\<open>link_markup\<close> below),
  group 1 encloses the second node, so \<^verbatim>\<open>\1\<close> is the second piece of the match.\<close>

datatype template = Text string | Group1

fun expand :: "template \<Rightarrow> string list \<Rightarrow> string" where
  "expand (Text t) ps = t"
| "expand Group1 ps = (case ps of _ # g # _ \<Rightarrow> g | _ \<Rightarrow> [])"

text \<open>
  \<^verbatim>\<open>re.sub\<close>: every match, found from left to right, is replaced by the expanded
  template; the search goes on after the match. After a match that consumed nothing
  the next character is copied and the search goes on behind it (no pattern of this
  module has such a match).
\<close>

function re_sub :: "pattern \<Rightarrow> template \<Rightarrow> bool \<Rightarrow> string \<Rightarrow> string" where
  "re_sub p repl bol s =
     (case match_at p bol s of
        Some (ps, rest) \<Rightarrow>
          if length rest < length s then expand repl ps @ re_sub p repl False rest
          else expand repl ps @ (case s of [] \<Rightarrow> [] | c # cs \<Rightarrow> c # re_sub p repl False cs)
      | None \<Rightarrow> (case s of [] \<Rightarrow> [] | c # cs \<Rightarrow> c # re_sub p repl False cs))"
  by pat_completeness auto
termination
  by (relation "measure (\<lambda>(p, repl, bol, s). length s)") auto

declare re_sub.simps [simp del]

definition strip :: "string \<Rightarrow> string" where
  \<comment> \<open>\<^verbatim>\<open>str.strip()\<close>\<close>
  "strip s = rev (dropWhile isspace (rev (dropWhile isspace s)))"

section \<open>The structure extractor\<close>

datatype exn = ValueError string

definition fence_open :: pattern where
  \<comment> \<open>\<^verbatim>\<open>^```(?:xml)?\s*\<close> with \<^verbatim>\<open>re.IGNORECASE\<close>\<close>
  "fence_open = [Bol, One (LitI CHR ''`''), One (LitI CHR ''`''), One (LitI CHR ''`''),
                 Opt (litsI ''xml''), Star Space]"

definition fence_close :: pattern where
  \<comment> \<open>\<^verbatim>\<open>```\s*$\<close> with \<^verbatim>\<open>re.IGNORECASE\<close>\<close>
  "fence_close = [One (LitI CHR ''`''), One (LitI CHR ''`''), One (LitI CHR ''`''),
                  Star Space, Eol]"

definition start_marker :: string where
  "start_marker = ''<wiki_structure>''"

definition end_marker :: string where
  "end_marker = ''</wiki_structure>''"

definition wiki_block :: pattern where
  \<comment> \<open>\<^verbatim>\<open><wiki_structure>[\s\S]*?</wiki_structure>\<close>\<close>
  "wiki_block = lits start_marker @ [StarLazy (Cls [SpaceItem, NonSpaceItem])] @ lits end_marker"

definition control_char :: pattern where
  \<comment> \<open>\<^verbatim>\<open>[\x00-\x08\x0B\x0C\x0E-\x1F\x7F]\<close>\<close>
  "control_char = [One (Cls [RangeItem (CHR 0x00) (CHR 0x08), CharItem (CHR 0x0B),
                             CharItem (CHR 0x0C), RangeItem (CHR 0x0E) (CHR 0x1F),
                             CharItem (CHR 0x7F)])]"

definition extract_wiki_structure_xml :: "string \<Rightarrow> exn + string" where
  "extract_wiki_structure_xml wiki_structure_response =
     (if wiki_structure_response = [] \<or> strip wiki_structure_response = []
      then Inl (ValueError ''Wiki structure response is empty'')
      else
        let r1 = re_sub fence_open (Text []) True wiki_structure_response;
            r2 = re_sub fence_close (Text []) True r1
        in case re_search wiki_block True r2 of
             None \<Rightarrow> Inl (ValueError ''No valid XML structure found in AI response'')
           | Some (pre, ps, rest) \<Rightarrow> Inr (re_sub control_char (Text []) True (concat ps)))"

section \<open>The content normaliser\<close>

definition details_block :: pattern where
  \<comment> \<open>\<^verbatim>\<open><details>.*?</details>\<close> with \<^verbatim>\<open>re.DOTALL\<close>\<close>
  "details_block = lits ''<details>'' @ [StarLazy DotAll] @ lits ''</details>''"

definition sources_marker :: pattern where
  \<comment> \<open>\<^verbatim>\<open>`Sources?: \[[^\]]*?\]\([^)]*?\)`\<close> with \<^verbatim>\<open>re.IGNORECASE\<close>\<close>
  "sources_marker =
     map One (litsI ''`Source'') @ [Opt (litsI ''s'')] @ map One (litsI '': ['') @
     [StarLazy (NCls [CharItem CHR '']''])] @ map One (litsI '']('') @
     [StarLazy (NCls [CharItem CHR '')''])] @ map One (litsI '')`'')"

definition image_markup :: pattern where
  \<comment> \<open>\<^verbatim>\<open>!\[.*?\]\(.*?\)\<close>\<close>
  "image_markup = lits ''!['' @ [StarLazy Dot] @ lits '']('' @ [StarLazy Dot] @ lits '')''"

definition link_markup :: pattern where
  \<comment> \<open>\<^verbatim>\<open>\[(.*?)\]\(https?://[^\s)]+\)\<close>; the group is the second node\<close>
  "link_markup = lits ''['' @ [StarLazy Dot] @ lits ''](http'' @ [Opt [Lit CHR ''s'']] @
                 lits ''://'' @ [Plus (NCls [SpaceItem, CharItem CHR '')''])] @ lits '')''"

definition any_tag :: pattern where
  \<comment> \<open>\<^verbatim>\<open><[^>]*>\<close>\<close>
  "any_tag = [One (Lit CHR ''<''), Star (NCls [CharItem CHR ''>'']), One (Lit CHR ''>'')]"

definition mermaid_block :: pattern where
  \<comment> \<open>\<^verbatim>\<open>```mermaid.*?```\<close> with \<^verbatim>\<open>re.DOTALL\<close>\<close>
  "mermaid_block = lits ''```mermaid'' @ [StarLazy DotAll] @ lits ''```''"

definition space_run :: pattern where
  \<comment> \<open>\<^verbatim>\<open>\s+\<close>\<close>
  "space_run = [Plus Space]"

definition blank_lines :: pattern where
  \<comment> \<open>\<^verbatim>\<open>\n\s*\n\<close>\<close>
  "blank_lines = [One (Lit (CHR 0x0A)), Star Space, One (Lit (CHR 0x0A))]"

definition markup_removed :: "string \<Rightarrow> string" where
  \<comment> \<open>lines 101 to 106 of the module: the six substitutions on markup\<close>
  "markup_removed content =
     (let c1 = re_sub details_block (Text []) True content;
          c2 = re_sub sources_marker (Text []) True c1;
          c3 = re_sub image_markup (Text []) True c2;
          c4 = re_sub link_markup Group1 True c3;
          c5 = re_sub any_tag (Text []) True c4
      in re_sub mermaid_block (Text []) True c5)"

definition spaces_collapsed :: "string \<Rightarrow> string" where
  \<comment> \<open>line 109: \<^verbatim>\<open>re.sub(r'\s+', ' ', content)\<close>\<close>
  "spaces_collapsed content = re_sub space_run (Text '' '') True content"

definition clean_and_format_content :: "string \<Rightarrow> string" where
  "clean_and_format_content content =
     strip (re_sub blank_lines (Text [CHR 0x0A, CHR 0x0A]) True
              (spaces_collapsed (markup_removed content)))"

text \<open>The pipeline as the specification describes it when step 8 is left out: the six
  substitutions on markup, the collapse of white space, and the final trim.\<close>

definition clean_without_recollapse :: "string \<Rightarrow> string" where
  "clean_without_recollapse content = strip (spaces_collapsed (markup_removed content))"

text \<open>A raw tag pattern in a text: a \<^verbatim>\<open><\<close> with a \<^verbatim>\<open>>\<close> somewhere behind it, which is
  what \<^verbatim>\<open><[^>]*>\<close> finds.\<close>

fun has_tag :: "string \<Rightarrow> bool" where
  "has_tag [] = False"
| "has_tag (c # s) = ((c = CHR ''<'' \<and> CHR ''>'' \<in> set s) \<or> has_tag s)"


definition angle :: "char \<Rightarrow> bool" where
  \<comment> \<open>the two characters of a tag pattern\<close>
  "angle c = (c = CHR ''<'' \<or> c = CHR ''>'')"


text \<open>A text whose white space is collapsed: every white-space character is a plain
  space and no two spaces are adjacent.\<close>

definition collapsed :: "string \<Rightarrow> bool" where
  "collapsed s = ((\<forall>c \<in> set s. isspace c \<longrightarrow> c = CHR '' '') \<and> \<not> sublist ''  '' s)"


section \<open>The extractor's contract in the words of the specification\<close>

definition blank :: "string \<Rightarrow> bool" where
  \<comment> \<open>empty or white space only\<close>
  "blank s = (\<forall>c \<in> set s. isspace c)"

definition is_control :: "char \<Rightarrow> bool" where
  \<comment> \<open>the C0 control characters without tab, newline and carriage return, and DEL\<close>
  "is_control c = ((ord c < 32 \<and> c \<noteq> CHR 0x09 \<and> c \<noteq> CHR 0x0A \<and> c \<noteq> CHR 0x0D) \<or> ord c = 127)"

fun find_sub :: "string \<Rightarrow> string \<Rightarrow> (string \<times> string) option" where
  \<comment> \<open>the first occurrence of \<open>sub\<close>: the text before it and the text after it\<close>
  "find_sub sub [] = (if sub = [] then Some ([], []) else None)"
| "find_sub sub (c # cs) =
     (if prefix sub (c # cs) then Some ([], drop (length sub) (c # cs))
      else map_option (\<lambda>(before, after). (c # before, after)) (find_sub sub cs))"

definition region_at :: "string \<Rightarrow> string option" where
  \<comment> \<open>a delimited region at the front of the text: the start marker, the shortest body,
      the end marker\<close>
  "region_at s =
     (if prefix start_marker s
      then map_option (\<lambda>(body, after). start_marker @ body @ end_marker)
             (find_sub end_marker (drop (length start_marker) s))
      else None)"

fun first_region :: "string \<Rightarrow> string option" where
  \<comment> \<open>the first delimited region of the text, with its markers\<close>
  "first_region [] = region_at []"
| "first_region (c # cs) =
     (case region_at (c # cs) of Some r \<Rightarrow> Some r | None \<Rightarrow> first_region cs)"

definition has_fragment :: "string \<Rightarrow> bool" where
  \<comment> \<open>the text contains a start marker with an end marker behind it\<close>
  "has_fragment s = (\<exists>pre body post. s = pre @ start_marker @ body @ end_marker @ post)"

fun node_accepts :: "node \<Rightarrow> char \<Rightarrow> bool" where
  \<comment> \<open>the characters a node can consume\<close>
  "node_accepts (One a) c = accepts a c"
| "node_accepts (Star a) c = accepts a c"
| "node_accepts (StarLazy a) c = accepts a c"
| "node_accepts (Plus a) c = accepts a c"
| "node_accepts (Opt as) c = (\<exists>a \<in> set as. accepts a c)"
| "node_accepts Bol c = False"
| "node_accepts Eol c = False"

definition matches_in :: "pattern \<Rightarrow> string \<Rightarrow> bool" where
  \<comment> \<open>\<^verbatim>\<open>re.search(p, s) is not None\<close>\<close>
  "matches_in p s = (re_search p True s \<noteq> None)"

definition markup_left :: "string \<Rightarrow> bool" where
  \<comment> \<open>one of the patterns of lines 102, 103, 104 and 106 matches somewhere in the text\<close>
  "markup_left s = (matches_in sources_marker s \<or> matches_in image_markup s \<or>
                    matches_in link_markup s \<or> matches_in mermaid_block s)"

section \<open>The structure parser\<close>

text \<open>
  \<^verbatim>\<open>parse_wiki_structure\<close> hands the text to \<^verbatim>\<open>xml.etree.ElementTree.fromstring\<close> and
  reads the tree with \<^verbatim>\<open>findtext\<close>, \<^verbatim>\<open>findall\<close> and \<^verbatim>\<open>get\<close>. An element has a tag, its
  attributes, the text before its first child (absent when there is none), its children and
  the text behind its end tag. \<open>fromstring\<close> below reads the documents that consist of
  start tags with attributes, end tags, empty-element tags and plain character data; on
  every other text (malformed, or with entities, comments, declarations or characters
  outside printable ASCII, tab and newline) it gives \<open>None\<close>.
\<close>

datatype element =
  Element (tag: string) (attrib: "(string \<times> string) list") (el_text: "string option")
          (children: "element list") (el_tail: "string option")

definition xml_space :: "char \<Rightarrow> bool" where
  "xml_space c = (c = CHR 0x20 \<or> c = CHR 0x09 \<or> c = CHR 0x0A \<or> c = CHR 0x0D)"

definition name_start :: "char \<Rightarrow> bool" where
  "name_start c = ((ord CHR ''A'' \<le> ord c \<and> ord c \<le> ord CHR ''Z'') \<or>
                   (ord CHR ''a'' \<le> ord c \<and> ord c \<le> ord CHR ''z'') \<or> c = CHR ''_'')"

definition name_char :: "char \<Rightarrow> bool" where
  "name_char c = (name_start c \<or> (ord CHR ''0'' \<le> ord c \<and> ord c \<le> ord CHR ''9'') \<or>
                  c = CHR ''-'' \<or> c = CHR ''.'')"

definition is_name :: "string \<Rightarrow> bool" where
  "is_name n = (n \<noteq> [] \<and> name_start (hd n) \<and> list_all name_char n)"

definition plain_char :: "char \<Rightarrow> bool" where
  \<comment> \<open>character data that stands for itself\<close>
  "plain_char c = (((32 \<le> ord c \<and> ord c < 127) \<or> c = CHR 0x09 \<or> c = CHR 0x0A) \<and>
                   c \<noteq> CHR ''<'' \<and> c \<noteq> CHR ''>'' \<and> c \<noteq> CHR ''&'')"

datatype attr_state =
    Behind_value            \<comment> \<open>behind the tag name or a value: white space must follow\<close>
  | Gap                     \<comment> \<open>in white space between attributes\<close>
  | In_name string
  | Behind_name string      \<comment> \<open>white space before \<^verbatim>\<open>=\<close>\<close>
  | Before_value string     \<comment> \<open>behind \<^verbatim>\<open>=\<close>\<close>
  | In_value string char string

fun attributes :: "attr_state \<Rightarrow> (string \<times> string) list \<Rightarrow> string \<Rightarrow> (string \<times> string) list option" where
  "attributes st acc [] =
     (case st of Behind_value \<Rightarrow> Some (rev acc) | Gap \<Rightarrow> Some (rev acc) | _ \<Rightarrow> None)"
| "attributes st acc (c # cs) =
     (case st of
        Behind_value \<Rightarrow> if xml_space c then attributes Gap acc cs else None
      | Gap \<Rightarrow> if xml_space c then attributes Gap acc cs
               else if name_start c then attributes (In_name [c]) acc cs else None
      | In_name n \<Rightarrow> if name_char c then attributes (In_name (n @ [c])) acc cs
                     else if c = CHR ''='' then attributes (Before_value n) acc cs
                     else if xml_space c then attributes (Behind_name n) acc cs else None
      | Behind_name n \<Rightarrow> if xml_space c then attributes (Behind_name n) acc cs
                         else if c = CHR ''='' then attributes (Before_value n) acc cs else None
      | Before_value n \<Rightarrow> if xml_space c then attributes (Before_value n) acc cs
                          else if c = CHR 0x22 \<or> c = CHR 0x27 then attributes (In_value n c []) acc cs
                          else None
      | In_value n q v \<Rightarrow>
          if c = q then (if n \<in> fst ` set acc then None
                         else attributes Behind_value ((n, v) # acc) cs)
          else if 32 \<le> ord c \<and> ord c < 127 \<and> c \<noteq> CHR ''<'' \<and> c \<noteq> CHR ''&''
            then attributes (In_value n q (v @ [c])) acc cs
          else None)"

record frame =
  ftag :: string
  fattrib :: "(string \<times> string) list"
  ftext :: "string option"
  fkids :: "element list"     \<comment> \<open>the children so far, the last one first\<close>

fun add_tail :: "string \<Rightarrow> element \<Rightarrow> element" where
  "add_tail d (Element t a x cs tail) = Element t a x cs (Some (case tail of None \<Rightarrow> d | Some s \<Rightarrow> s @ d))"

definition add_data :: "string \<Rightarrow> frame list \<Rightarrow> frame list option" where
  \<comment> \<open>character data: the text of the open element, or the tail of its last child;
      outside the root only white space is allowed\<close>
  "add_data d st =
     (if d = [] then Some st
      else case st of
             [] \<Rightarrow> if list_all xml_space d then Some [] else None
           | f # fs \<Rightarrow>
               (case fkids f of
                  [] \<Rightarrow> Some (f\<lparr>ftext := Some (case ftext f of None \<Rightarrow> d | Some s \<Rightarrow> s @ d)\<rparr> # fs)
                | k # ks \<Rightarrow> Some (f\<lparr>fkids := add_tail d k # ks\<rparr> # fs)))"

definition close_frame :: "frame \<Rightarrow> frame list \<Rightarrow> frame list \<times> element option" where
  \<comment> \<open>the element is complete: it becomes the last child of its parent, or the root\<close>
  "close_frame f fs =
     (let e = Element (ftag f) (fattrib f) (ftext f) (rev (fkids f)) None
      in case fs of
           [] \<Rightarrow> ([], Some e)
         | p # ps \<Rightarrow> (p\<lparr>fkids := e # fkids p\<rparr> # ps, None))"

definition markup :: "string \<Rightarrow> frame list \<Rightarrow> element option \<Rightarrow> (frame list \<times> element option) option" where
  \<comment> \<open>the text between \<^verbatim>\<open><\<close> and \<^verbatim>\<open>>\<close>: an end tag, a start tag or an empty-element tag\<close>
  "markup t st root =
     (if t = [] then None
      else if hd t = CHR ''/'' then
        (let n = rev (dropWhile xml_space (rev (tl t)))
         in case st of
              [] \<Rightarrow> None
            | f # fs \<Rightarrow>
                if is_name n \<and> ftag f = n
                then (case close_frame f fs of (st', r) \<Rightarrow> Some (st', if r = None then root else r))
                else None)
      else if root \<noteq> None then None
      else
        (let empty = (last t = CHR ''/'');
             body = (if empty then butlast t else t);
             n = takeWhile name_char body
         in if \<not> is_name n then None
            else case attributes Behind_value [] (dropWhile name_char body) of
                   None \<Rightarrow> None
                 | Some a \<Rightarrow>
                     (let f = \<lparr>ftag = n, fattrib = a, ftext = None, fkids = []\<rparr>
                      in if empty then Some (close_frame f st) else Some (f # st, None))))"

datatype mode = Content string | Markup string

fun scan :: "mode \<Rightarrow> frame list \<Rightarrow> element option \<Rightarrow> string \<Rightarrow> element option" where
  "scan m st root [] =
     (case m of
        Content d \<Rightarrow> if st = [] \<and> list_all xml_space d then root else None
      | Markup t \<Rightarrow> None)"
| "scan m st root (c # cs) =
     (case m of
        Content d \<Rightarrow>
          if c = CHR ''<'' then
            (case add_data d st of None \<Rightarrow> None | Some st' \<Rightarrow> scan (Markup []) st' root cs)
          else if plain_char c then scan (Content (d @ [c])) st root cs
          else None
      | Markup t \<Rightarrow>
          if c = CHR ''>'' then
            (case markup t st root of
               None \<Rightarrow> None
             | Some (st', root') \<Rightarrow> scan (Content []) st' root' cs)
          else if c = CHR ''<'' then None
          else scan (Markup (t @ [c])) st root cs)"

definition fromstring :: "string \<Rightarrow> element option" where
  \<comment> \<open>\<^verbatim>\<open>ET.fromstring\<close>: the root element\<close>
  "fromstring xml_text = scan (Content []) [] None xml_text"

fun descendants :: "element \<Rightarrow> element list" where
  \<comment> \<open>the elements below an element, in document order\<close>
  "descendants (Element t a x cs tail) = concat (map (\<lambda>c. c # descendants c) cs)"

datatype path =
    Child string            \<comment> \<open>the path \<^verbatim>\<open>'name'\<close>: children with that tag\<close>
  | Descendant string       \<comment> \<open>the path \<^verbatim>\<open>'.//name'\<close>: elements below with that tag\<close>

fun findall :: "element \<Rightarrow> path \<Rightarrow> element list" where
  "findall e (Child n) = filter (\<lambda>c. tag c = n) (children e)"
| "findall e (Descendant n) = filter (\<lambda>c. tag c = n) (descendants e)"

definition findtext :: "element \<Rightarrow> path \<Rightarrow> string \<Rightarrow> string" where
  \<comment> \<open>\<^verbatim>\<open>findtext(path, default)\<close>: the text of the first match, the empty string when the
      match has no text, the default when nothing matches\<close>
  "findtext e p dflt =
     (case findall e p of
        [] \<Rightarrow> dflt
      | c # cs \<Rightarrow> (case el_text c of None \<Rightarrow> [] | Some t \<Rightarrow> t))"

definition element_get :: "element \<Rightarrow> string \<Rightarrow> string \<Rightarrow> string" where
  \<comment> \<open>\<^verbatim>\<open>element.get(key, default)\<close>\<close>
  "element_get e key dflt = (case map_of (attrib e) key of Some v \<Rightarrow> v | None \<Rightarrow> dflt)"

definition texts :: "element list \<Rightarrow> string list" where
  \<comment> \<open>\<^verbatim>\<open>[el.text for el in els if el.text]\<close>\<close>
  "texts els = concat (map (\<lambda>el. case el_text el of None \<Rightarrow> [] | Some t \<Rightarrow> if t = [] then [] else [t]) els)"

record page =
  p_id :: string             \<comment> \<open>the key \<^verbatim>\<open>'id'\<close>\<close>
  p_title :: string          \<comment> \<open>the key \<^verbatim>\<open>'title'\<close>\<close>
  p_description :: string    \<comment> \<open>the key \<^verbatim>\<open>'description'\<close>\<close>
  p_importance :: string
  p_file_paths :: "string list"
  p_related_pages :: "string list"

definition page_of :: "element \<Rightarrow> page" where
  \<comment> \<open>lines 77 to 84: the dictionary built for one page element\<close>
  "page_of page_el =
     \<lparr>p_id = element_get page_el ''id'' [],
      p_title = findtext page_el (Child ''title'') [],
      p_description = findtext page_el (Child ''description'') [],
      p_importance = findtext page_el (Child ''importance'') ''medium'',
      p_file_paths = texts (findall page_el (Descendant ''file_path'')),
      p_related_pages = texts (findall page_el (Descendant ''related''))\<rparr>"

definition read_structure :: "element \<Rightarrow> string \<times> string \<times> page list" where
  \<comment> \<open>lines 73 to 85: what \<^verbatim>\<open>parse_wiki_structure\<close> does with the root\<close>
  "read_structure root =
     (findtext root (Child ''title'') [], findtext root (Child ''description'') [],
      map page_of (findall root (Descendant ''page'')))"

definition parse_wiki_structure :: "string \<Rightarrow> (string \<times> string \<times> page list) option" where
  "parse_wiki_structure xml_text = map_option read_structure (fromstring xml_text)"

section \<open>The report writer\<close>

text \<open>
  \<^verbatim>\<open>generate_llms_txt\<close> receives a dictionary from page ids to dictionaries of page
  attributes whose values are of any type. The values modelled here are \<^verbatim>\<open>None\<close>, booleans,
  integers, strings and lists of such values; a dictionary is an association list in
  insertion order. Case conversion is modelled on ASCII text: \<open>capitalize\<close> and \<open>str_title\<close>
  agree with \<^verbatim>\<open>str.capitalize\<close> and \<^verbatim>\<open>str.title\<close> on strings of code points below 128.
\<close>

datatype pyval = PNone | PBool bool | PInt int | PStr string | PList "pyval list"

type_synonym pydict = "(string \<times> pyval) list"

definition dict_get :: "pydict \<Rightarrow> string \<Rightarrow> pyval \<Rightarrow> pyval" where
  \<comment> \<open>\<^verbatim>\<open>d.get(key, default)\<close>\<close>
  "dict_get d key dflt = (case map_of d key of Some v \<Rightarrow> v | None \<Rightarrow> dflt)"

datatype pyexn = OSError | TypeError

definition is_Exception :: "pyexn \<Rightarrow> bool" where
  \<comment> \<open>both are subclasses of \<^verbatim>\<open>Exception\<close>\<close>
  "is_Exception e = True"

definition ascii :: "string \<Rightarrow> bool" where
  "ascii s = (\<forall>c \<in> set s. ord c < 128)"

definition is_alpha :: "char \<Rightarrow> bool" where
  \<comment> \<open>an ASCII letter\<close>
  "is_alpha c = ((ord CHR ''A'' \<le> ord c \<and> ord c \<le> ord CHR ''Z'') \<or>
                 (ord CHR ''a'' \<le> ord c \<and> ord c \<le> ord CHR ''z''))"

fun capitalize :: "string \<Rightarrow> string" where
  \<comment> \<open>\<^verbatim>\<open>str.capitalize()\<close>\<close>
  "capitalize [] = []"
| "capitalize (c # cs) = upper_char c # map lower_char cs"

fun title_from :: "bool \<Rightarrow> string \<Rightarrow> string" where
  \<comment> \<open>\<^verbatim>\<open>str.title()\<close>: a letter behind a letter is lowered, any other letter is raised\<close>
  "title_from previous_is_cased [] = []"
| "title_from previous_is_cased (c # cs) =
     (if previous_is_cased then lower_char c else upper_char c) # title_from (is_alpha c) cs"

definition str_title :: "string \<Rightarrow> string" where
  "str_title s = title_from False s"

definition replace :: "char \<Rightarrow> char \<Rightarrow> string \<Rightarrow> string" where
  \<comment> \<open>\<^verbatim>\<open>s.replace(old, new)\<close> for single characters\<close>
  "replace old new s = map (\<lambda>c. if c = old then new else c) s"

fun join :: "string \<Rightarrow> string list \<Rightarrow> string" where
  \<comment> \<open>\<^verbatim>\<open>sep.join(xs)\<close> on strings\<close>
  "join sep [] = []"
| "join sep [x] = x"
| "join sep (x # y # ys) = x @ sep @ join sep (y # ys)"

fun digits :: "nat \<Rightarrow> string" where
  "digits n = (if n < 10 then [char_of (48 + n)] else digits (n div 10) @ [char_of (48 + n mod 10)])"

declare digits.simps [simp del]

definition printable :: "char \<Rightarrow> bool" where
  \<comment> \<open>\<^verbatim>\<open>str.isprintable\<close> on one code point below 256\<close>
  "printable c = ((32 \<le> ord c \<and> ord c < 127) \<or> (161 \<le> ord c \<and> ord c \<noteq> 173))"

definition hex_digit :: "nat \<Rightarrow> char" where
  "hex_digit n = ''0123456789abcdef'' ! n"

definition repr_char :: "char \<Rightarrow> char \<Rightarrow> string" where
  \<comment> \<open>one character inside the \<^verbatim>\<open>repr\<close> of a string quoted with \<open>quote\<close>\<close>
  "repr_char quote c =
     (if c = quote \<or> c = CHR 0x5C then [CHR 0x5C, c]
      else if c = CHR 0x09 then [CHR 0x5C, CHR ''t'']
      else if c = CHR 0x0A then [CHR 0x5C, CHR ''n'']
      else if c = CHR 0x0D then [CHR 0x5C, CHR ''r'']
      else if \<not> printable c
        then [CHR 0x5C, CHR ''x'', hex_digit (ord c div 16), hex_digit (ord c mod 16)]
      else [c])"

definition repr_str :: "string \<Rightarrow> string" where
  \<comment> \<open>\<^verbatim>\<open>repr\<close> of a string: double quotes only when it has a single quote and no double one\<close>
  "repr_str s =
     (let quote = (if CHR 0x27 \<in> set s \<and> CHR 0x22 \<notin> set s then CHR 0x22 else CHR 0x27)
      in quote # concat (map (repr_char quote) s) @ [quote])"

fun py_repr :: "pyval \<Rightarrow> string" where
  "py_repr PNone = ''None''"
| "py_repr (PBool b) = (if b then ''True'' else ''False'')"
| "py_repr (PInt i) = (if i < 0 then CHR ''-'' # digits (nat (- i)) else digits (nat i))"
| "py_repr (PStr s) = repr_str s"
| "py_repr (PList xs) = ''['' @ join '', '' (map py_repr xs) @ '']''"

fun py_str :: "pyval \<Rightarrow> string" where
  \<comment> \<open>\<^verbatim>\<open>str(v)\<close>, also what an f-string puts for \<^verbatim>\<open>{v}\<close>\<close>
  "py_str (PStr s) = s"
| "py_str v = py_repr v"

fun len :: "pyval \<Rightarrow> pyexn + nat" where
  \<comment> \<open>\<^verbatim>\<open>len(v)\<close>: a \<^verbatim>\<open>TypeError\<close> for a value without length\<close>
  "len (PStr s) = Inr (length s)"
| "len (PList xs) = Inr (length xs)"
| "len v = Inl TypeError"

fun the_strs :: "pyval list \<Rightarrow> string list option" where
  \<comment> \<open>the entries when all of them are strings\<close>
  "the_strs [] = Some []"
| "the_strs (PStr s # vs) = map_option ((#) s) (the_strs vs)"
| "the_strs (v # vs) = None"

definition joined_or_None :: "pyval \<Rightarrow> pyexn + string" where
  \<comment> \<open>lines 139 and 142: \<^verbatim>\<open>", ".join(l) if isinstance(l, list) and l else 'None'\<close>;
      \<^verbatim>\<open>join\<close> raises a \<^verbatim>\<open>TypeError\<close> for an entry that is not a string\<close>
  "joined_or_None l =
     (case l of
        PList xs \<Rightarrow>
          (if xs \<noteq> []
           then (case the_strs xs of Some ss \<Rightarrow> Inr (join '', '' ss) | None \<Rightarrow> Inl TypeError)
           else Inr ''None'')
      | _ \<Rightarrow> Inr ''None'')"

datatype step = Write string | Raise pyexn

definition page_steps :: "string \<Rightarrow> pydict \<Rightarrow> step list" where
  \<comment> \<open>one round of the loop of line 134: the texts passed to \<^verbatim>\<open>f.write\<close> in their order,
      up to the first exception that an expression of the round raises\<close>
  "page_steps page_id page_data =
     (let title = dict_get page_data ''title'' (PStr (str_title (replace CHR ''-'' CHR '' '' page_id)));
          content = dict_get page_data ''content'' (PStr []);
          importance = dict_get page_data ''importance'' (PStr ''N/A'');
          related_pages_list = dict_get page_data ''relatedPages'' (PList [])
      in case joined_or_None related_pages_list of
           Inl e \<Rightarrow> [Raise e]
         | Inr related_pages \<Rightarrow>
             (let file_paths_list = dict_get page_data ''filePaths'' (PList [])
              in case joined_or_None file_paths_list of
                   Inl e \<Rightarrow> [Raise e]
                 | Inr file_paths \<Rightarrow>
                     (let cleaned_content = clean_and_format_content (py_str content)
                      in Write (''# '' @ py_str title @ [CHR 0x0A]) #
                         (case len title of
                            Inl e \<Rightarrow> [Raise e]
                          | Inr n \<Rightarrow>
                              [Write (replicate (n + 2) CHR ''-'' @ [CHR 0x0A, CHR 0x0A]),
                               Write (''**ID:** '' @ py_str (dict_get page_data ''id'' (PStr page_id))
                                        @ [CHR 0x0A]),
                               Write (''**Importance:** '' @ capitalize (py_str importance)
                                        @ [CHR 0x0A]),
                               Write (''**Related Pages:** '' @ related_pages @ [CHR 0x0A]),
                               Write (''**Relevant Files:** '' @ file_paths @ [CHR 0x0A, CHR 0x0A]),
                               Write (''## Content'' @ [CHR 0x0A]),
                               Write (cleaned_content @ [CHR 0x0A, CHR 0x0A]),
                               Write (concat (replicate 10 ''---'') @ [CHR 0x0A, CHR 0x0A])]))))"

text \<open>
  The file system is a parameter of the model: which of the calls \<^verbatim>\<open>os.makedirs\<close>,
  \<^verbatim>\<open>open\<close> and the closing of the file at the end of the \<^verbatim>\<open>with\<close> block fail with an
  \<^verbatim>\<open>OSError\<close>, and which call of \<^verbatim>\<open>f.write\<close>, counted from 0, is the first to fail, if any.
\<close>

record env =
  makedirs_fails :: bool
  open_fails :: bool
  failing_write :: "nat option"
  close_fails :: bool

datatype log_record =
    Info string             \<comment> \<open>\<^verbatim>\<open>logger.info(message)\<close>\<close>
  | Error string pyexn      \<comment> \<open>\<^verbatim>\<open>logger.error(f"{text}{e}", exc_info=True)\<close>\<close>

record outcome =
  propagated :: "pyexn option"    \<comment> \<open>the exception that leaves the function, if any\<close>
  logged :: "log_record list"
  written :: "string option"      \<comment> \<open>the text that the calls of \<^verbatim>\<open>f.write\<close> have accepted;
                                      \<open>None\<close> when the file was not opened\<close>
  closed :: bool                  \<comment> \<open>the file was opened and closed without an error\<close>

definition path_join :: "string \<Rightarrow> string \<Rightarrow> string" where
  \<comment> \<open>\<^verbatim>\<open>os.path.join\<close> of POSIX on a directory name without a final slash\<close>
  "path_join dir name = (if prefix ''/'' name then name else dir @ ''/'' @ name)"

fun write_steps :: "nat option \<Rightarrow> nat \<Rightarrow> step list \<Rightarrow> string \<times> nat \<times> pyexn option" where
  \<comment> \<open>the text written, the number of calls of \<^verbatim>\<open>f.write\<close> so far, the exception raised\<close>
  "write_steps fails k [] = ([], k, None)"
| "write_steps fails k (Raise e # steps) = ([], k, Some e)"
| "write_steps fails k (Write s # steps) =
     (if fails = Some k then ([], k, Some OSError)
      else case write_steps fails (Suc k) steps of (text, k', r) \<Rightarrow> (s @ text, k', r))"

fun write_pages :: "nat option \<Rightarrow> nat \<Rightarrow> (string \<times> pydict) list \<Rightarrow> string \<times> pyexn option" where
  \<comment> \<open>the loop of line 134 over \<^verbatim>\<open>data.items()\<close>\<close>
  "write_pages fails k [] = ([], None)"
| "write_pages fails k ((page_id, page_data) # items) =
     (case write_steps fails k (page_steps page_id page_data) of
        (text, k', Some e) \<Rightarrow> (text, Some e)
      | (text, k', None) \<Rightarrow>
          (case write_pages fails k' items of (text', r) \<Rightarrow> (text @ text', r)))"

definition handler :: "string \<Rightarrow> pyexn \<Rightarrow> string option \<Rightarrow> bool \<Rightarrow> outcome" where
  \<comment> \<open>lines 154 and 155: \<^verbatim>\<open>except Exception as e: logger.error(...)\<close>\<close>
  "handler filename e text cl =
     (if is_Exception e
      then \<lparr>propagated = None, logged = [Error (''Error generating '' @ filename @ '': '') e],
            written = text, closed = cl\<rparr>
      else \<lparr>propagated = Some e, logged = [], written = text, closed = cl\<rparr>)"

definition generate_llms_txt :: "(string \<times> pydict) list \<Rightarrow> string \<Rightarrow> env \<Rightarrow> outcome" where
  "generate_llms_txt data filename world =
     (let output_dir = ''repo_wiki_generations''
      in if makedirs_fails world then handler filename OSError None False
         else let filepath = path_join output_dir filename
              in if open_fails world then handler filename OSError None False
                 else case write_pages (failing_write world) 0 data of
                        (text, r) \<Rightarrow>
                          (case (if close_fails world then Some OSError else r) of
                             Some e \<Rightarrow> handler filename e (Some text) (\<not> close_fails world)
                           | None \<Rightarrow>
                               \<lparr>propagated = None,
                                logged = [Info (''Successfully generated '' @ filename @ '' at '' @ filepath)],
                                written = Some text, closed = True\<rparr>))"

fun the_text :: "step \<Rightarrow> string" where
  "the_text (Write s) = s"
| "the_text (Raise e) = []"

definition full_text :: "(string \<times> pydict) list \<Rightarrow> string" where
  \<comment> \<open>the texts of all rounds of the loop, one after the other\<close>
  "full_text data = concat (map (\<lambda>(page_id, page_data). concat (map the_text (page_steps page_id page_data))) data)"

definition listed_as :: "pyval option \<Rightarrow> string \<Rightarrow> bool" where
  \<comment> \<open>what is to be written for a list field of a page: \<^verbatim>\<open>None\<close> when the field is absent,
      the empty list or no list, the entries joined by \<^verbatim>\<open>", "\<close> when it is a list of strings
      that is not empty\<close>
  "listed_as field text =
     ((field = None \<longrightarrow> text = ''None'') \<and>
      (field = Some (PList []) \<longrightarrow> text = ''None'') \<and>
      (\<forall>v. field = Some v \<and> (\<forall>xs. v \<noteq> PList xs) \<longrightarrow> text = ''None'') \<and>
      (\<forall>ss. ss \<noteq> [] \<and> field = Some (PList (map PStr ss)) \<longrightarrow> text = join '', '' ss))"

definition strings_if_list :: "pyval option \<Rightarrow> bool" where
  \<comment> \<open>the field, when it is a list, holds strings only\<close>
  "strings_if_list field = (\<forall>xs. field = Some (PList xs) \<longrightarrow> (\<exists>ss. xs = map PStr ss))"

definition well_typed :: "pydict \<Rightarrow> bool" where
  \<comment> \<open>the attributes of a page have the types the writer relies on: the title, when
      present, is a string, and the two list fields, when they are lists, hold strings\<close>
  "well_typed page_data =
     ((\<forall>v. map_of page_data ''title'' = Some v \<longrightarrow> (\<exists>s. v = PStr s)) \<and>
      strings_if_list (map_of page_data ''relatedPages'') \<and>
      strings_if_list (map_of page_data ''filePaths''))"

section \<open>Facts about the matcher\<close>

lemma tries_None_iff: "tries f ks = None \<longleftrightarrow> (\<forall>k \<in> set ks. f k = None)"
  by (induction ks) (auto split: option.splits)

lemma tries_Some_mem: "tries f ks = Some r \<Longrightarrow> \<exists>k \<in> set ks. f k = Some r"
  by (induction ks) (auto split: option.splits)

lemma push_Some_iff: "push p r = Some (qs, rest) \<longleftrightarrow> (\<exists>ps. r = Some (ps, rest) \<and> qs = p # ps)"
  by (cases r) auto

lemma push_None_iff: "push p r = None \<longleftrightarrow> r = None"
  by (cases r) auto

lemma match_at_One:
  "match_at (One a # p) bol s =
     (case s of [] \<Rightarrow> None
      | c # cs \<Rightarrow> if accepts a c then push [c] (match_at p False cs) else None)"
  by (cases s) (auto simp: match_at.simps(2) split: option.splits)

lemma match_at_One_Some:
  "match_at (One a # p) bol s = Some (ps, rest) \<longleftrightarrow>
     (\<exists>c cs qs. s = c # cs \<and> accepts a c \<and> ps = [c] # qs \<and> match_at p False cs = Some (qs, rest))"
  by (cases s) (auto simp: match_at_One push_Some_iff)

lemma match_at_Star:
  "match_at (Star a # p) bol s =
     tries (\<lambda>k. push (take k s) (match_at p (bol \<and> k = 0) (drop k s))) (rev [0 ..< Suc (run a s)])"
  by (simp add: match_at.simps(2))

lemma match_at_StarLazy:
  "match_at (StarLazy a # p) bol s =
     tries (\<lambda>k. push (take k s) (match_at p (bol \<and> k = 0) (drop k s))) [0 ..< Suc (run a s)]"
  by (simp add: match_at.simps(2))

lemma match_at_Plus:
  "match_at (Plus a # p) bol s =
     tries (\<lambda>k. push (take k s) (match_at p (bol \<and> k = 0) (drop k s))) (rev [1 ..< Suc (run a s)])"
  by (simp add: match_at.simps(2))

lemma match_at_Opt:
  "match_at (Opt as # p) bol s =
     (if accepts_all as s
      then (case push (take (length as) s) (match_at p (bol \<and> length as = 0) (drop (length as) s)) of
              Some r \<Rightarrow> Some r | None \<Rightarrow> push [] (match_at p bol s))
      else push [] (match_at p bol s))"
  by (simp add: match_at.simps(2) split: option.splits)

lemma match_at_Bol:
  "match_at (Bol # p) bol s = (if bol then push [] (match_at p True s) else None)"
  by (simp add: match_at.simps(2) split: option.splits)

lemma match_at_Eol:
  "match_at (Eol # p) bol s = (if s = [] \<or> s = [CHR 0x0A] then push [] (match_at p bol s) else None)"
  by (simp add: match_at.simps(2) split: option.splits)

lemma match_at_concat: "match_at p bol s = Some (ps, rest) \<Longrightarrow> s = concat ps @ rest"
proof (induction p arbitrary: bol s ps rest)
  case Nil
  then show ?case by simp
next
  case (Cons n p)
  from Cons.prems obtain k where
    k: "push (take k s) (match_at p (bol \<and> k = 0) (drop k s)) = Some (ps, rest)"
    by (auto simp: match_at.simps(2) dest: tries_Some_mem)
  then obtain qs where qs: "match_at p (bol \<and> k = 0) (drop k s) = Some (qs, rest)" "ps = take k s # qs"
    by (auto simp: push_Some_iff)
  from Cons.IH[OF qs(1)] have "drop k s = concat qs @ rest" .
  then have "s = take k s @ concat qs @ rest"
    by (metis append_take_drop_id)
  with qs(2) show ?case by simp
qed

lemma match_at_One_consumes:
  "match_at (One a # p) bol s = Some (ps, rest) \<Longrightarrow> length rest < length s"
  by (auto simp: match_at_One_Some dest!: match_at_concat)

lemma re_sub_Nil_None: "match_at p bol [] = None \<Longrightarrow> re_sub p repl bol [] = []"
  by (subst re_sub.simps) simp

lemma re_sub_Cons_None:
  "match_at p bol (c # cs) = None \<Longrightarrow> re_sub p repl bol (c # cs) = c # re_sub p repl False cs"
  by (subst re_sub.simps) simp

lemma re_sub_Some:
  "match_at p bol s = Some (ps, rest) \<Longrightarrow> length rest < length s \<Longrightarrow>
   re_sub p repl bol s = expand repl ps @ re_sub p repl False rest"
  by (subst re_sub.simps) simp

lemma re_sub_Some_empty:
  "match_at p bol s = Some (ps, rest) \<Longrightarrow> \<not> length rest < length s \<Longrightarrow>
   re_sub p repl bol s = expand repl ps @ (case s of [] \<Rightarrow> [] | c # cs \<Rightarrow> c # re_sub p repl False cs)"
  by (subst re_sub.simps) simp

lemma re_sub_no_first:
  "\<forall>c \<in> set s. \<not> accepts a c \<Longrightarrow> re_sub (One a # p) repl bol s = s"
proof (induction s arbitrary: bol)
  case Nil
  then show ?case by (simp add: re_sub_Nil_None match_at_One)
next
  case (Cons c cs)
  then show ?case by (simp add: re_sub_Cons_None match_at_One)
qed

lemma set_re_sub:
  assumes "\<And>ps. set (expand repl ps) \<subseteq> A"
  shows "set (re_sub p repl bol s) \<subseteq> set s \<union> A"
proof (induction s arbitrary: bol rule: length_induct)
  case (1 s)
  show ?case
  proof (cases "match_at p bol s")
    case None
    show ?thesis
    proof (cases s)
      case Nil
      with None show ?thesis by (simp add: re_sub_Nil_None)
    next
      case (Cons c cs)
      with None 1 have "set (re_sub p repl False cs) \<subseteq> set cs \<union> A" by simp
      with None Cons show ?thesis by (auto simp: re_sub_Cons_None)
    qed
  next
    case (Some r)
    obtain ps rest where r: "r = (ps, rest)" by (cases r)
    from Some r have cat: "s = concat ps @ rest" by (auto dest: match_at_concat)
    then have sub: "set rest \<subseteq> set s" by (metis Un_upper2 set_append)
    show ?thesis
    proof (cases "length rest < length s")
      case True
      with 1 have "set (re_sub p repl False rest) \<subseteq> set rest \<union> A" by simp
      with Some r True sub assms[of ps] show ?thesis
        by (auto simp: re_sub_Some)
    next
      case False
      show ?thesis
      proof (cases s)
        case Nil
        with Some r False assms[of ps] show ?thesis by (auto simp: re_sub_Some_empty)
      next
        case (Cons c cs)
        with 1 have "set (re_sub p repl False cs) \<subseteq> set cs \<union> A" by simp
        with Some r False Cons assms[of ps] show ?thesis
          by (auto simp: re_sub_Some_empty)
      qed
    qed
  qed
qed

lemma isspace_nl: "isspace (CHR 0x0A)"
  by (simp add: isspace_def)

lemma tries_rev_upt:
  "tries f (rev [m ..< Suc n]) =
     (if m \<le> n then (case f n of Some r \<Rightarrow> Some r | None \<Rightarrow> tries f (rev [m ..< n])) else None)"
  by simp

lemma run_Cons: "run a (c # cs) = (if accepts a c then Suc (run a cs) else 0)"
  by (simp add: run_def)

lemma run_le_length: "run a s \<le> length s"
  by (simp add: run_def length_takeWhile_le)

lemma match_space_run:
  "isspace c \<Longrightarrow>
   match_at space_run bol (c # cs) =
     Some ([c # takeWhile isspace cs], dropWhile isspace cs)"
proof -
  assume sp: "isspace c"
  have acc: "accepts Space = isspace" by (rule ext) simp
  have "run Space (c # cs) = Suc (run Space cs)" using sp by (simp add: run_Cons)
  then show ?thesis
    using sp unfolding space_run_def
    by (simp add: match_at_Plus tries_rev_upt run_def acc takeWhile_eq_take[symmetric] dropWhile_eq_drop[symmetric] del: upt_Suc)
qed

lemma match_space_run_None: "\<not> isspace c \<Longrightarrow> match_at space_run bol (c # cs) = None"
  by (simp add: space_run_def match_at_Plus run_Cons)

lemma re_sub_removes:
  assumes m: "\<And>c cs bol. Q c \<Longrightarrow> \<exists>ps rest. match_at p bol (c # cs) = Some (ps, rest) \<and> length rest \<le> length cs"
    and r: "\<And>ps. \<forall>c \<in> set (expand repl ps). \<not> Q c"
  shows "\<forall>c \<in> set (re_sub p repl bol s). \<not> Q c"
proof (induction s arbitrary: bol rule: length_induct)
  case (1 s)
  show ?case
  proof (cases "match_at p bol s")
    case None
    show ?thesis
    proof (cases s)
      case Nil
      with None show ?thesis by (simp add: re_sub_Nil_None)
    next
      case (Cons c cs)
      with None m[where c=c and cs=cs and bol=bol] have "\<not> Q c" by auto
      moreover from Cons 1 have "\<forall>c \<in> set (re_sub p repl False cs). \<not> Q c" by (metis length_Cons lessI)
      ultimately show ?thesis using None Cons by (simp add: re_sub_Cons_None)
    qed
  next
    case (Some x)
    obtain ps rest where x: "x = (ps, rest)" by (cases x)
    from Some x have len: "length rest \<le> length s" by (auto dest: match_at_concat)
    show ?thesis
    proof (cases "length rest < length s")
      case True
      with 1 have "\<forall>c \<in> set (re_sub p repl False rest). \<not> Q c" by blast
      with Some x True r[of ps] show ?thesis by (auto simp: re_sub_Some)
    next
      case False
      show ?thesis
      proof (cases s)
        case Nil
        with Some x r[of ps] show ?thesis by (auto simp: re_sub_Some_empty)
      next
        case (Cons c cs)
        have "\<not> Q c"
        proof
          assume "Q c"
          from m[OF this, where cs=cs and bol=bol] Some x Cons False show False by auto
        qed
        moreover from Cons 1 have "\<forall>c \<in> set (re_sub p repl False cs). \<not> Q c" by (metis length_Cons lessI)
        ultimately show ?thesis using Some x False Cons r[of ps] by (auto simp: re_sub_Some_empty)
      qed
    qed
  qed
qed

lemma no_newline_spaces_collapsed: "CHR 0x0A \<notin> set (spaces_collapsed s)"
proof -
  have "\<forall>c \<in> set (re_sub space_run (Text '' '') True s). \<not> (isspace c \<and> c \<noteq> CHR '' '')"
    by (rule re_sub_removes) (auto simp: match_space_run length_dropWhile_le)
  then show ?thesis
    using isspace_nl by (auto simp: spaces_collapsed_def)
qed

lemma blank_lines_noop: "CHR 0x0A \<notin> set s \<Longrightarrow> re_sub blank_lines repl bol s = s"
  unfolding blank_lines_def by (rule re_sub_no_first) auto

lemma drop_run: "drop (run a s) s = dropWhile (accepts a) s"
  by (simp add: run_def dropWhile_eq_drop)

lemma take_run: "take (run a s) s = takeWhile (accepts a) s"
  by (simp add: run_def takeWhile_eq_take[symmetric])

lemma drop_within_run:
  "k < run a s \<Longrightarrow> \<exists>c cs. drop k s = c # cs \<and> accepts a c"
proof -
  assume k: "k < run a s"
  then have kl: "k < length s" using run_le_length[of a s] by simp
  from k have "s ! k = takeWhile (accepts a) s ! k"
    by (simp add: run_def takeWhile_nth)
  moreover from k have "takeWhile (accepts a) s ! k \<in> set (takeWhile (accepts a) s)"
    by (simp add: run_def)
  ultimately have "accepts a (s ! k)" by (metis set_takeWhileD)
  with kl show ?thesis by (metis Cons_nth_drop_Suc)
qed

section \<open>Tag patterns and the substitutions\<close>

lemma has_tag_subseq_iff: "has_tag s \<longleftrightarrow> subseq ''<>'' s"
proof (induction s)
  case Nil
  then show ?case by simp
next
  case (Cons c s)
  have gt: "CHR ''>'' \<in> set s" if "subseq ''<>'' s"
  proof -
    have "subseq ''>'' ''<>''" by simp
    with that have "subseq ''>'' s" by (meson subseq_order.trans)
    then show ?thesis by (simp add: subseq_singleton_left)
  qed
  show ?case
  proof (cases "c = CHR ''<''")
    case True
    with Cons gt show ?thesis by (auto simp: subseq_singleton_left)
  next
    case False
    with Cons show ?thesis by (auto simp: subseq_Cons')
  qed
qed

lemma has_tag_subseq: "subseq t s \<Longrightarrow> has_tag t \<Longrightarrow> has_tag s"
  unfolding has_tag_subseq_iff by (meson subseq_order.trans)

lemma has_tag_filter: "has_tag (filter angle s) = has_tag s"
proof
  assume "has_tag (filter angle s)"
  then show "has_tag s" by (rule has_tag_subseq[rotated]) simp
next
  assume "has_tag s"
  then have "subseq (filter angle ''<>'') (filter angle s)"
    unfolding has_tag_subseq_iff by (rule subseq_filter)
  then show "has_tag (filter angle s)" by (simp add: has_tag_subseq_iff angle_def)
qed

lemma filter_re_sub_subseq:
  assumes r: "\<And>ps. filter Q (expand repl ps) = []"
  shows "subseq (filter Q (re_sub p repl bol s)) (filter Q s)"
proof (induction s arbitrary: bol rule: length_induct)
  case (1 s)
  show ?case
  proof (cases "match_at p bol s")
    case None
    show ?thesis
    proof (cases s)
      case Nil
      with None show ?thesis by (simp add: re_sub_Nil_None)
    next
      case (Cons c cs)
      with 1 have "subseq (filter Q (re_sub p repl False cs)) (filter Q cs)"
        by (metis length_Cons lessI)
      with None Cons show ?thesis by (simp add: re_sub_Cons_None)
    qed
  next
    case (Some x)
    obtain ps rest where x: "x = (ps, rest)" by (cases x)
    from Some x have cat: "s = concat ps @ rest" by (auto dest: match_at_concat)
    show ?thesis
    proof (cases "length rest < length s")
      case True
      with 1 have "subseq (filter Q (re_sub p repl False rest)) (filter Q rest)" by blast
      then have "subseq (filter Q (re_sub p repl False rest)) (filter Q (concat ps) @ filter Q rest)"
        by (rule subseq_drop_many)
      with cat have "subseq (filter Q (re_sub p repl False rest)) (filter Q s)"
        by (metis filter_append)
      with Some x True r[of ps] show ?thesis by (simp add: re_sub_Some)
    next
      case False
      show ?thesis
      proof (cases s)
        case Nil
        with Some x r[of ps] show ?thesis by (simp add: re_sub_Some_empty)
      next
        case (Cons c cs)
        with 1 have "subseq (filter Q (re_sub p repl False cs)) (filter Q cs)"
          by (metis length_Cons lessI)
        with Some x False Cons r[of ps] show ?thesis by (simp add: re_sub_Some_empty)
      qed
    qed
  qed
qed

lemma re_sub_keeps_no_tag:
  assumes "\<And>ps. filter angle (expand repl ps) = []" "\<not> has_tag s"
  shows "\<not> has_tag (re_sub p repl bol s)"
proof
  assume "has_tag (re_sub p repl bol s)"
  then have "has_tag (filter angle (re_sub p repl bol s))" by (simp add: has_tag_filter)
  then have "has_tag (filter angle s)"
    by (rule has_tag_subseq[OF filter_re_sub_subseq[OF assms(1)]])
  with assms(2) show False by (simp add: has_tag_filter)
qed

lemma accepts_not_gt: "accepts (NCls [CharItem CHR ''>'']) c \<longleftrightarrow> c \<noteq> CHR ''>''"
  by simp

lemma match_gt_None: "CHR ''>'' \<notin> set s \<Longrightarrow> match_at [One (Lit CHR ''>'')] b (drop k s) = None"
proof (cases "drop k s")
  case Nil
  then show ?thesis by (simp add: match_at_One del: match_at.simps)
next
  case (Cons d ds)
  assume "CHR ''>'' \<notin> set s"
  moreover from Cons have "d \<in> set s" by (metis in_set_dropD list.set_intros(1))
  ultimately have "d \<noteq> CHR ''>''" by auto
  with Cons show ?thesis by (simp add: match_at_One del: match_at.simps)
qed

lemma match_any_tag_None:
  "CHR ''>'' \<notin> set s \<Longrightarrow> match_at any_tag bol s = None"
proof (cases s)
  case Nil
  then show ?thesis by (simp add: any_tag_def match_at_One del: match_at.simps)
next
  case (Cons c cs)
  assume "CHR ''>'' \<notin> set s"
  with Cons have n: "CHR ''>'' \<notin> set cs" by simp
  have "match_at [Star (NCls [CharItem CHR ''>'']), One (Lit CHR ''>'')] False cs = None"
    unfolding match_at_Star tries_None_iff push_None_iff
    using match_gt_None[OF n] by blast
  with Cons show ?thesis
    by (simp add: any_tag_def match_at_One del: match_at.simps)
qed

lemma match_any_tag_Some:
  "CHR ''>'' \<in> set cs \<Longrightarrow> match_at any_tag bol (CHR ''<'' # cs) \<noteq> None"
proof -
  assume gt: "CHR ''>'' \<in> set cs"
  let ?a = "NCls [CharItem CHR ''>'']"
  from gt have "dropWhile (accepts ?a) cs \<noteq> []"
    by (auto simp: dropWhile_eq_Nil_conv)
  then obtain d ds where d: "dropWhile (accepts ?a) cs = d # ds" by (cases "dropWhile (accepts ?a) cs") auto
  then have "\<not> accepts ?a d" by (metis hd_dropWhile list.sel(1) list.distinct(1))
  then have "d = CHR ''>''" by simp
  with d have "match_at [One (Lit CHR ''>'')] False (drop (run ?a cs) cs) \<noteq> None"
    by (simp add: drop_run match_at_One del: match_at.simps(2) accepts.simps(7))
  then have "tries (\<lambda>k. push (take k cs) (match_at [One (Lit CHR ''>'')] (False \<and> k = 0) (drop k cs)))
               (rev [0 ..< Suc (run ?a cs)]) \<noteq> None"
    unfolding tries_None_iff push_None_iff by auto
  then have "match_at [Star ?a, One (Lit CHR ''>'')] False cs \<noteq> None"
    unfolding match_at_Star .
  then show ?thesis
    by (auto simp: any_tag_def match_at_One push_None_iff simp del: match_at.simps)
qed

lemma match_any_tag_first: "c \<noteq> CHR ''<'' \<Longrightarrow> match_at any_tag bol (c # cs) = None"
  by (simp add: any_tag_def match_at_One del: match_at.simps)

lemma no_tag_after_any_tag: "\<not> has_tag (re_sub any_tag (Text []) bol s)"
proof (induction s arbitrary: bol rule: length_induct)
  case (1 s)
  show ?case
  proof (cases "match_at any_tag bol s")
    case None
    show ?thesis
    proof (cases s)
      case Nil
      with None show ?thesis by (simp add: re_sub_Nil_None)
    next
      case (Cons c cs)
      with 1 have ih: "\<not> has_tag (re_sub any_tag (Text []) False cs)"
        by (metis length_Cons lessI)
      have "CHR ''>'' \<notin> set (re_sub any_tag (Text []) False cs)" if "c = CHR ''<''"
      proof
        assume a: "CHR ''>'' \<in> set (re_sub any_tag (Text []) False cs)"
        have "set (re_sub any_tag (Text []) False cs) \<subseteq> set cs \<union> {}"
          by (rule set_re_sub) simp
        with a have gt: "CHR ''>'' \<in> set cs" by auto
        have "match_at any_tag bol s \<noteq> None" using gt Cons that match_any_tag_Some by simp
        with None show False by simp
      qed
      with ih None Cons show ?thesis by (auto simp: re_sub_Cons_None)
    qed
  next
    case (Some x)
    obtain ps rest where x: "x = (ps, rest)" by (cases x)
    from Some x have cat: "s = concat ps @ rest" by (auto dest: match_at_concat)
    show ?thesis
    proof (cases "length rest < length s")
      case True
      with 1 have "\<not> has_tag (re_sub any_tag (Text []) False rest)" by blast
      with Some x True show ?thesis by (simp add: re_sub_Some)
    next
      case False
      moreover from Some x have "length rest < length s"
        unfolding any_tag_def by (auto dest: match_at_One_consumes)
      ultimately show ?thesis by simp
    qed
  qed
qed

lemma sublist_strip: "sublist (strip s) s"
proof -
  have "sublist (dropWhile isspace (rev (dropWhile isspace s))) (rev (dropWhile isspace s))"
    by (rule suffix_imp_sublist[OF suffix_dropWhile])
  then have "sublist (strip s) (dropWhile isspace s)"
    unfolding strip_def by (simp add: sublist_rev_left)
  moreover have "sublist (dropWhile isspace s) s"
    by (rule suffix_imp_sublist[OF suffix_dropWhile])
  ultimately show ?thesis by (meson sublist_order.order.trans)
qed

lemma subseq_strip: "subseq (strip s) s"
  by (rule sublist_imp_subseq[OF sublist_strip])

lemma no_tag_markup_removed: "\<not> has_tag (markup_removed x)"
  unfolding markup_removed_def Let_def
  by (rule re_sub_keeps_no_tag) (simp_all add: no_tag_after_any_tag)

lemma no_tag_clean: "\<not> has_tag (clean_and_format_content x)"
proof -
  have 1: "\<not> has_tag (spaces_collapsed (markup_removed x))"
    unfolding spaces_collapsed_def
    by (rule re_sub_keeps_no_tag) (simp_all add: no_tag_markup_removed angle_def)
  have 2: "\<not> has_tag (re_sub blank_lines (Text [CHR 0x0A, CHR 0x0A]) True (spaces_collapsed (markup_removed x)))"
    by (rule re_sub_keeps_no_tag) (simp_all add: 1 angle_def)
  show ?thesis
    unfolding clean_and_format_content_def
    using 2 has_tag_subseq[OF subseq_strip] by blast
qed

lemma sublist_details_has_tag: "sublist ''<details>'' s \<Longrightarrow> has_tag s"
proof -
  assume "sublist ''<details>'' s"
  then have "subseq ''<details>'' s" by (rule sublist_imp_subseq)
  moreover have "subseq ''<>'' ''<details>''" by simp
  ultimately show ?thesis unfolding has_tag_subseq_iff by (meson subseq_order.trans)
qed

section \<open>Texts the markup substitutions leave alone\<close>

lemma match_lits_prefix:
  "match_at (lits l @ q) bol s = Some (ps, rest) \<Longrightarrow> prefix l s"
proof (induction l arbitrary: bol s ps)
  case Nil
  then show ?case by simp
next
  case (Cons a l)
  from Cons.prems obtain c cs qs where
    s: "s = c # cs" "c = a" and m: "match_at (lits l @ q) False cs = Some (qs, rest)"
    by (auto simp: match_at_One_Some)
  from Cons.IH[OF m] s show ?case by simp
qed

lemma re_sub_no_match:
  "(\<And>b s'. suffix s' s \<Longrightarrow> match_at p b s' = None) \<Longrightarrow> re_sub p repl bol s = s"
proof (induction s arbitrary: bol)
  case Nil
  then show ?case by (simp add: re_sub_Nil_None)
next
  case (Cons c cs)
  have "re_sub p repl False cs = cs"
    by (rule Cons.IH) (simp add: Cons.prems suffix_ConsI)
  moreover have "match_at p bol (c # cs) = None" by (simp add: Cons.prems)
  ultimately show ?case by (simp add: re_sub_Cons_None)
qed

lemma suffix_has_tag: "suffix s' s \<Longrightarrow> has_tag s' \<Longrightarrow> has_tag s"
  by (rule has_tag_subseq[OF suffix_imp_subseq])

lemma details_noop: "\<not> has_tag s \<Longrightarrow> re_sub details_block repl bol s = s"
proof (rule re_sub_no_match)
  fix b s'
  assume nt: "\<not> has_tag s" and suf: "suffix s' s"
  show "match_at details_block b s' = None"
  proof (rule ccontr)
    assume "match_at details_block b s' \<noteq> None"
    then obtain ps rest where "match_at (lits ''<details>'' @ ([StarLazy DotAll] @ lits ''</details>'')) b s' = Some (ps, rest)"
      by (auto simp: details_block_def)
    then have "prefix ''<details>'' s'" by (rule match_lits_prefix)
    then have "sublist ''<details>'' s'" by (rule prefix_imp_sublist)
    then have "has_tag s'" by (rule sublist_details_has_tag)
    with suf nt show False by (auto dest: suffix_has_tag)
  qed
qed

lemma lower_char_fix: "lower_char c = CHR 0x60 \<Longrightarrow> c = CHR 0x60"
proof (cases "ord CHR ''A'' \<le> ord c \<and> ord c \<le> ord CHR ''Z''")
  case True
  assume a: "lower_char c = CHR 0x60"
  with True have "char_of (ord c + 32) = CHR 0x60" by (simp add: lower_char_def)
  then have "of_char (char_of (ord c + 32) :: char) = (of_char (CHR 0x60) :: nat)" by simp
  then have "(ord c + 32) mod 256 = 96" by (simp add: of_char_of)
  moreover from True have "65 \<le> ord c \<and> ord c \<le> 90" by (simp add: ord_def)
  ultimately show ?thesis by auto
next
  case False
  assume "lower_char c = CHR 0x60"
  with False show ?thesis by (auto simp: lower_char_def split: if_splits)
qed

lemma lower_backtick: "lower_char c = lower_char CHR 0x60 \<longleftrightarrow> c = CHR 0x60"
proof -
  have "lower_char CHR 0x60 = CHR 0x60" by (simp add: lower_char_def ord_def)
  then show ?thesis using lower_char_fix by auto
qed

lemma sources_noop: "CHR 0x60 \<notin> set s \<Longrightarrow> re_sub sources_marker repl bol s = s"
proof -
  assume n: "CHR 0x60 \<notin> set s"
  obtain q where q: "sources_marker = One (LitI CHR 0x60) # q"
    by (simp add: sources_marker_def)
  from n have "\<forall>c \<in> set s. \<not> accepts (LitI CHR 0x60) c" by (auto simp: lower_backtick)
  then show ?thesis unfolding q by (rule re_sub_no_first)
qed

lemma image_noop: "CHR ''['' \<notin> set s \<Longrightarrow> re_sub image_markup repl bol s = s"
proof (rule re_sub_no_match)
  fix b s'
  assume n: "CHR ''['' \<notin> set s" and suf: "suffix s' s"
  show "match_at image_markup b s' = None"
  proof (rule ccontr)
    assume "match_at image_markup b s' \<noteq> None"
    then obtain ps rest where "match_at (lits ''!['' @ ([StarLazy Dot] @ lits '']('' @ [StarLazy Dot] @ lits '')'')) b s' = Some (ps, rest)"
      by (auto simp: image_markup_def)
    then have "prefix ''!['' s'" by (rule match_lits_prefix)
    then have "CHR ''['' \<in> set s'" by (auto simp: prefix_def)
    with suf n show False by (auto simp: suffix_def)
  qed
qed

lemma link_noop: "CHR ''['' \<notin> set s \<Longrightarrow> re_sub link_markup repl bol s = s"
proof -
  assume n: "CHR ''['' \<notin> set s"
  obtain q where q: "link_markup = One (Lit CHR ''['') # q"
    by (simp add: link_markup_def)
  from n have "\<forall>c \<in> set s. \<not> accepts (Lit CHR ''['') c" by auto
  then show ?thesis unfolding q by (rule re_sub_no_first)
qed

lemma mermaid_noop: "CHR 0x60 \<notin> set s \<Longrightarrow> re_sub mermaid_block repl bol s = s"
proof -
  assume n: "CHR 0x60 \<notin> set s"
  obtain q where q: "mermaid_block = One (Lit CHR 0x60) # q"
    by (simp add: mermaid_block_def)
  from n have "\<forall>c \<in> set s. \<not> accepts (Lit CHR 0x60) c" by auto
  then show ?thesis unfolding q by (rule re_sub_no_first)
qed

lemma any_tag_noop: "\<not> has_tag s \<Longrightarrow> re_sub any_tag repl bol s = s"
proof (rule re_sub_no_match)
  fix b s'
  assume nt: "\<not> has_tag s" and suf: "suffix s' s"
  from suf nt have nt': "\<not> has_tag s'" by (auto dest: suffix_has_tag)
  show "match_at any_tag b s' = None"
  proof (cases s')
    case Nil
    then show ?thesis by (simp add: match_any_tag_None)
  next
    case (Cons c cs)
    show ?thesis
    proof (cases "c = CHR ''<''")
      case True
      with nt' Cons have "CHR ''>'' \<notin> set cs" by simp
      with True Cons have "CHR ''>'' \<notin> set s'" by simp
      then show ?thesis by (rule match_any_tag_None)
    next
      case False
      with Cons show ?thesis by (simp add: match_any_tag_first)
    qed
  qed
qed

lemma markup_removed_noop:
  "\<not> has_tag s \<Longrightarrow> CHR ''['' \<notin> set s \<Longrightarrow> CHR 0x60 \<notin> set s \<Longrightarrow> markup_removed s = s"
  by (simp add: markup_removed_def details_noop sources_noop image_noop link_noop any_tag_noop mermaid_noop)

lemma re_sub_search_None: "re_search p bol s = None \<Longrightarrow> re_sub p repl bol s = s"
proof (induction s arbitrary: bol)
  case Nil
  then show ?case by (simp add: re_sub_Nil_None)
next
  case (Cons c cs)
  from Cons.prems have m: "match_at p bol (c # cs) = None" and r: "re_search p False cs = None"
    by (auto split: option.splits)
  from Cons.IH[OF r] m show ?case by (simp add: re_sub_Cons_None)
qed

lemma markup_removed_fixed:
  assumes "\<not> has_tag s" and "\<not> markup_left s"
  shows "markup_removed s = s"
proof -
  from assms(2) have
    "re_search sources_marker True s = None" "re_search image_markup True s = None"
    "re_search link_markup True s = None" "re_search mermaid_block True s = None"
    unfolding markup_left_def matches_in_def by blast+
  then have "re_sub sources_marker (Text []) True s = s" "re_sub image_markup (Text []) True s = s"
    "re_sub link_markup Group1 True s = s" "re_sub mermaid_block (Text []) True s = s"
    by (simp_all add: re_sub_search_None)
  with assms(1) show ?thesis
    by (simp add: markup_removed_def details_noop any_tag_noop)
qed

section \<open>White space after the collapse\<close>

lemma strip_Nil_or_ends:
  "strip s = [] \<or> (\<not> isspace (hd (strip s)) \<and> \<not> isspace (last (strip s)))"
proof (cases "strip s = []")
  case True then show ?thesis by simp
next
  case False
  let ?d = "dropWhile isspace s"
  let ?e = "dropWhile isspace (rev ?d)"
  have st: "strip s = rev ?e" by (simp add: strip_def)
  with False have e: "?e \<noteq> []" by simp
  then have "\<not> isspace (hd ?e)" by (rule hd_dropWhile)
  with e have l: "\<not> isspace (last (strip s))" by (simp add: st last_rev)
  from e have d: "?d \<noteq> []" by (metis dropWhile.simps(1) rev.simps(1))
  then have hd: "\<not> isspace (hd ?d)" by (rule hd_dropWhile)
  have "suffix ?e (rev ?d)" by (rule suffix_dropWhile)
  then have "prefix (rev ?e) ?d" by (simp add: suffix_to_prefix)
  then obtain zs where zs: "?d = rev ?e @ zs" by (auto simp: prefix_def)
  from e have "rev ?e \<noteq> []" by simp
  then have "hd (rev ?e @ zs) = hd (rev ?e)" by (rule hd_append2)
  with zs have "hd (rev ?e) = hd ?d" by simp
  with hd l show ?thesis by (simp add: st)
qed

lemma strip_fixed:
  "t = [] \<or> (\<not> isspace (hd t) \<and> \<not> isspace (last t)) \<Longrightarrow> strip t = t"
proof (cases "t = []")
  case True then show ?thesis by (simp add: strip_def)
next
  case False
  assume "t = [] \<or> (\<not> isspace (hd t) \<and> \<not> isspace (last t))"
  with False have h: "\<not> isspace (hd t)" and l: "\<not> isspace (last t)" by auto
  from h have 1: "dropWhile isspace t = t" by (simp add: dropWhile_eq_self_iff)
  from l False have "\<not> isspace (hd (rev t))" by (simp add: hd_rev)
  then have "dropWhile isspace (rev t) = rev t" by (simp add: dropWhile_eq_self_iff)
  with 1 show ?thesis by (simp add: strip_def)
qed

lemma strip_idem: "strip (strip s) = strip s"
  by (rule strip_fixed) (rule strip_Nil_or_ends)

lemma collapsed_sublist: "sublist t s \<Longrightarrow> collapsed s \<Longrightarrow> collapsed t"
  unfolding collapsed_def
  by (meson set_mono_sublist subsetD sublist_order.order.trans)

lemma collapsed_Cons: "collapsed (c # s) \<Longrightarrow> collapsed s"
proof -
  assume c: "collapsed (c # s)"
  have "sublist s (c # s)" by (rule suffix_imp_sublist) (simp add: suffix_ConsI)
  then show ?thesis using c by (rule collapsed_sublist)
qed

lemma isspace_space: "isspace CHR '' ''" by (simp add: isspace_def)

lemma space_run_fixed: "collapsed s \<Longrightarrow> re_sub space_run (Text '' '') bol s = s"
proof (induction s arbitrary: bol)
  case Nil
  have "match_at space_run bol [] = None" by (simp add: space_run_def match_at_Plus run_def)
  then show ?case by (simp add: re_sub_Nil_None)
next
  case (Cons c cs)
  from Cons.prems have ih: "re_sub space_run (Text '' '') False cs = cs"
    by (intro Cons.IH) (rule collapsed_Cons)
  show ?case
  proof (cases "isspace c")
    case False
    then show ?thesis by (simp add: match_space_run_None re_sub_Cons_None ih)
  next
    case True
    with Cons.prems have c: "c = CHR '' ''" by (simp add: collapsed_def)
    have nx: "cs = [] \<or> \<not> isspace (hd cs)"
    proof (rule ccontr)
      assume "\<not> (cs = [] \<or> \<not> isspace (hd cs))"
      then obtain d ds where d: "cs = d # ds" "isspace d" by (cases cs) auto
      with Cons.prems have "d = CHR '' ''" by (simp add: collapsed_def)
      with c d have "prefix ''  '' (c # cs)" by simp
      then have "sublist ''  '' (c # cs)" by (rule prefix_imp_sublist)
      with Cons.prems show False by (simp add: collapsed_def)
    qed
    then have tw: "takeWhile isspace cs = []" and dw: "dropWhile isspace cs = cs"
      by (auto simp: takeWhile_eq_Nil_iff dropWhile_eq_self_iff)
    have "match_at space_run bol (c # cs) = Some ([[c]], cs)"
      using True by (simp add: match_space_run tw dw)
    then have "re_sub space_run (Text '' '') bol (c # cs) = expand (Text '' '') [[c]] @ re_sub space_run (Text '' '') False cs"
      by (rule re_sub_Some) simp
    with ih c show ?thesis by simp
  qed
qed

lemma only_plain_spaces:
  "\<forall>c \<in> set (re_sub space_run (Text '' '') bol s). \<not> (isspace c \<and> c \<noteq> CHR '' '')"
  by (rule re_sub_removes) (auto simp: match_space_run length_dropWhile_le)

lemma no_double_space:
  "\<not> sublist ''  '' (re_sub space_run (Text '' '') bol s) \<and>
   (s = [] \<or> \<not> isspace (hd s) \<longrightarrow>
      re_sub space_run (Text '' '') bol s = [] \<or> hd (re_sub space_run (Text '' '') bol s) \<noteq> CHR '' '')"
proof (induction s arbitrary: bol rule: length_induct)
  case (1 s)
  let ?r = "\<lambda>b t. re_sub space_run (Text '' '') b t"
  show ?case
  proof (cases s)
    case Nil
    have "match_at space_run bol [] = None" by (simp add: space_run_def match_at_Plus run_def)
    with Nil show ?thesis by (simp add: re_sub_Nil_None)
  next
    case (Cons c cs)
    show ?thesis
    proof (cases "isspace c")
      case False
      from Cons 1 have ih: "\<not> sublist ''  '' (?r False cs)" by (metis length_Cons lessI)
      from False have c: "c \<noteq> CHR '' ''" using isspace_space by auto
      have "?r bol s = c # ?r False cs" using False Cons by (simp add: match_space_run_None re_sub_Cons_None)
      with ih c show ?thesis by (simp add: sublist_Cons_right)
    next
      case True
      let ?t = "dropWhile isspace cs"
      have len: "length ?t < length s" using Cons by (simp add: length_dropWhile_le less_Suc_eq_le)
      with 1 have ih: "\<not> sublist ''  '' (?r False ?t)"
        and ih2: "?t = [] \<or> \<not> isspace (hd ?t) \<longrightarrow> ?r False ?t = [] \<or> hd (?r False ?t) \<noteq> CHR '' ''"
        by blast+
      have "?t = [] \<or> \<not> isspace (hd ?t)" using hd_dropWhile[of isspace cs] by blast
      with ih2 have h: "?r False ?t = [] \<or> hd (?r False ?t) \<noteq> CHR '' ''" by blast
      have "match_at space_run bol (c # cs) = Some ([c # takeWhile isspace cs], ?t)"
        using True by (rule match_space_run)
      then have "?r bol (c # cs) = expand (Text '' '') [c # takeWhile isspace cs] @ ?r False ?t"
        by (rule re_sub_Some) (simp add: length_dropWhile_le less_Suc_eq_le)
      then have r: "?r bol s = CHR '' '' # ?r False ?t" using Cons by simp
      from h have "\<not> prefix ''  '' (CHR '' '' # ?r False ?t)" by (cases "?r False ?t") auto
      with ih r True Cons show ?thesis by (simp add: sublist_Cons_right)
    qed
  qed
qed

lemma collapsed_spaces_collapsed: "collapsed (spaces_collapsed s)"
  unfolding collapsed_def spaces_collapsed_def
  using only_plain_spaces[of True s] no_double_space[of True s] by blast

lemma clean_eq: "clean_and_format_content x = strip (spaces_collapsed (markup_removed x))"
  by (simp add: clean_and_format_content_def no_newline_spaces_collapsed blank_lines_noop)

lemma collapsed_clean: "collapsed (clean_and_format_content x)"
  unfolding clean_eq by (rule collapsed_sublist[OF sublist_strip collapsed_spaces_collapsed])

lemma clean_fixed:
  assumes "markup_removed (clean_and_format_content x) = clean_and_format_content x"
  shows "clean_and_format_content (clean_and_format_content x) = clean_and_format_content x"
proof -
  let ?t = "clean_and_format_content x"
  have "spaces_collapsed ?t = ?t"
    unfolding spaces_collapsed_def by (rule space_run_fixed[OF collapsed_clean])
  with assms have "clean_and_format_content ?t = strip ?t" by (simp add: clean_eq[of ?t])
  also have "\<dots> = ?t" by (subst (1 2) clean_eq) (rule strip_idem)
  finally show ?thesis .
qed

section \<open>The extractor: the search for the delimited region\<close>

lemma push_map_option: "push p r = map_option (\<lambda>(qs, rest). (p # qs, rest)) r"
  by (cases r) auto

lemma match_lits:
  "match_at (lits l @ q) b s =
     (if prefix l s
      then map_option (\<lambda>(qs, rest). (map (\<lambda>c. [c]) l @ qs, rest))
             (match_at q (b \<and> l = []) (drop (length l) s))
      else None)"
proof (induction l arbitrary: b s)
  case Nil
  show ?case by (simp add: option.map_ident split_beta')
next
  case (Cons a l)
  show ?case
  proof (cases s)
    case Nil
    then show ?thesis by (simp add: match_at_One)
  next
    case (Cons c cs)
    have "match_at (lits (a # l) @ q) b s = (if c = a then push [c] (match_at (lits l @ q) False cs) else None)"
      using Cons by (simp add: match_at_One)
    then show ?thesis
      using Cons Cons.IH[of False cs]
      by (auto simp: push_map_option option.map_comp comp_def split_beta')
  qed
qed

lemma tries_map: "tries f (map g ks) = tries (f \<circ> g) ks"
  by (induction ks) (auto split: option.splits)

lemma upt_Suc_shift: "[0 ..< Suc (Suc n)] = 0 # map Suc [0 ..< Suc n]"
  by (metis map_Suc_upt upt_conv_Cons zero_less_Suc)

lemma tries_lazy_find:
  "e \<noteq> [] \<Longrightarrow>
   tries (\<lambda>k. push (pre @ take k s)
               (if prefix e (drop k s) then Some (E, drop (length e) (drop k s)) else None))
         [0 ..< Suc (length s)]
   = map_option (\<lambda>(body, after). ((pre @ body) # E, after)) (find_sub e s)"
proof (induction s arbitrary: pre)
  case Nil
  then show ?case by simp
next
  case (Cons c cs)
  have sh: "[0 ..< Suc (length (c # cs))] = 0 # map Suc [0 ..< Suc (length cs)]"
    by (simp only: length_Cons upt_Suc_shift)
  show ?case
  proof (cases "prefix e (c # cs)")
    case True
    then show ?thesis by (simp only: sh) simp
  next
    case False
    have "tries (\<lambda>k. push (pre @ take k (c # cs))
               (if prefix e (drop k (c # cs)) then Some (E, drop (length e) (drop k (c # cs))) else None))
         [0 ..< Suc (length (c # cs))]
      = tries (\<lambda>k. push ((pre @ [c]) @ take k cs)
               (if prefix e (drop k cs) then Some (E, drop (length e) (drop k cs)) else None))
         [0 ..< Suc (length cs)]"
      using False by (simp only: sh tries.simps tries_map) (simp add: comp_def cong: if_cong)
    also have "\<dots> = map_option (\<lambda>(body, after). (((pre @ [c]) @ body) # E, after)) (find_sub e cs)"
      by (rule Cons.IH[OF Cons.prems])
    finally show ?thesis
      using False by (simp add: option.map_comp comp_def split_beta')
  qed
qed


lemma match_lits_only:
  "match_at (lits l) b s =
     (if prefix l s then Some (map (\<lambda>c. [c]) l, drop (length l) s) else None)"
  using match_lits[of l "[]" b s] by simp

lemma run_all: "(\<And>c. accepts a c) \<Longrightarrow> run a s = length s"
  unfolding run_def by (induction s) auto

lemma match_lazy_any:
  assumes "\<And>c. accepts a c" "e \<noteq> []"
  shows "match_at (StarLazy a # lits e) b s =
           map_option (\<lambda>(body, after). (body # map (\<lambda>c. [c]) e, after)) (find_sub e s)"
proof -
  have "match_at (StarLazy a # lits e) b s =
          tries (\<lambda>k. push ([] @ take k s)
                  (if prefix e (drop k s) then Some (map (\<lambda>c. [c]) e, drop (length e) (drop k s)) else None))
                [0 ..< Suc (length s)]"
    by (simp only: match_at_StarLazy run_all[OF assms(1)] match_lits_only append_Nil)
  also have "\<dots> = map_option (\<lambda>(body, after). (([] @ body) # map (\<lambda>c. [c]) e, after)) (find_sub e s)"
    by (rule tries_lazy_find[OF assms(2)])
  finally show ?thesis by simp
qed

lemma concat_singletons: "concat (map (\<lambda>c. [c]) l) = l"
  by (induction l) auto

lemma match_wiki_block:
  "map_option (\<lambda>(ps, rest). concat ps) (match_at wiki_block b s) = region_at s"
proof -
  have a: "\<And>c. accepts (Cls [SpaceItem, NonSpaceItem]) c" by simp
  have e: "end_marker \<noteq> []" by (simp add: end_marker_def)
  have "match_at wiki_block b s =
          (if prefix start_marker s
           then map_option (\<lambda>(qs, rest). (map (\<lambda>c. [c]) start_marker @ qs, rest))
                  (map_option (\<lambda>(body, after). (body # map (\<lambda>c. [c]) end_marker, after))
                     (find_sub end_marker (drop (length start_marker) s)))
           else None)"
    unfolding wiki_block_def
    by (simp only: append_Cons append_Nil match_lits match_lazy_any[OF a e])
  then show ?thesis
    by (simp add: region_at_def option.map_comp comp_def split_beta' concat_singletons)
qed

lemma search_wiki_block:
  "map_option (\<lambda>(pre, ps, rest). concat ps) (re_search wiki_block b s) = first_region s"
proof (induction s arbitrary: b)
  case Nil
  show ?case using match_wiki_block[of b "[]"]
    by (simp add: option.map_comp comp_def split_beta')
next
  case (Cons c cs)
  show ?case
  proof (cases "match_at wiki_block b (c # cs)")
    case None
    with match_wiki_block[of b "c # cs"] have "region_at (c # cs) = None" by simp
    with None Cons.IH[of False] show ?thesis
      by (simp add: option.map_comp comp_def split_beta')
  next
    case (Some x)
    with match_wiki_block[of b "c # cs"] obtain r where r: "region_at (c # cs) = Some r" "r = concat (fst x)"
      by (auto simp: split_beta')
    with Some show ?thesis by (simp add: split_beta')
  qed
qed

lemma accepts_all_take:
  "accepts_all as s \<Longrightarrow> \<forall>c \<in> set (take (length as) s). \<exists>a \<in> set as. accepts a c"
  by (induction as s rule: accepts_all.induct) auto

lemma take_run_accepted: "k \<le> run a s \<Longrightarrow> \<forall>c \<in> set (take k s). accepts a c"
proof -
  assume k: "k \<le> run a s"
  have "take k (take (run a s) s) = take k s"
    using k by (simp add: min_def)
  then have "take k (takeWhile (accepts a) s) = take k s"
    by (simp only: take_run)
  moreover have "set (take k (takeWhile (accepts a) s)) \<subseteq> set (takeWhile (accepts a) s)"
    by (rule set_take_subset)
  ultimately have "set (take k s) \<subseteq> set (takeWhile (accepts a) s)" by simp
  then show ?thesis by (auto dest: set_takeWhileD)
qed

lemma spans_accepted:
  "k \<in> set (spans n b s) \<Longrightarrow> \<forall>c \<in> set (take k s). node_accepts n c"
proof (cases n)
  case (One a)
  assume "k \<in> set (spans n b s)"
  with One show ?thesis by (cases s) (auto split: if_splits)
next
  case (Star a)
  assume "k \<in> set (spans n b s)"
  with Star have "k \<le> run a s" by auto
  with Star show ?thesis using take_run_accepted by simp
next
  case (StarLazy a)
  assume "k \<in> set (spans n b s)"
  with StarLazy have "k \<le> run a s" by auto
  with StarLazy show ?thesis using take_run_accepted by simp
next
  case (Plus a)
  assume "k \<in> set (spans n b s)"
  with Plus have "k \<le> run a s" by auto
  with Plus show ?thesis using take_run_accepted by simp
next
  case (Opt as)
  assume "k \<in> set (spans n b s)"
  with Opt show ?thesis using accepts_all_take[of as s] by (auto split: if_splits)
next
  case Bol
  assume "k \<in> set (spans n b s)"
  with Bol show ?thesis by (auto split: if_splits)
next
  case Eol
  assume "k \<in> set (spans n b s)"
  with Eol show ?thesis by (auto split: if_splits)
qed

lemma match_chars_accepted:
  "match_at p b s = Some (ps, rest) \<Longrightarrow> \<forall>c \<in> set (concat ps). \<exists>n \<in> set p. node_accepts n c"
proof (induction p arbitrary: b s ps)
  case Nil
  then show ?case by simp
next
  case (Cons n p)
  from Cons.prems obtain k where k: "k \<in> set (spans n b s)"
    and m: "push (take k s) (match_at p (b \<and> k = 0) (drop k s)) = Some (ps, rest)"
    by (auto simp: match_at.simps(2) dest: tries_Some_mem)
  from m obtain qs where qs: "ps = take k s # qs" "match_at p (b \<and> k = 0) (drop k s) = Some (qs, rest)"
    by (auto simp: push_Some_iff)
  from Cons.IH[OF qs(2)] spans_accepted[OF k] qs(1) show ?case by auto
qed

lemma match_Eol_rest:
  "match_at (p @ [Eol]) b s = Some (ps, rest) \<Longrightarrow> rest = [] \<or> rest = [CHR 0x0A]"
proof (induction p arbitrary: b s ps)
  case Nil
  then show ?case by (auto simp: match_at_Eol push_Some_iff split: if_splits)
next
  case (Cons n p)
  from Cons.prems obtain k where
    m: "push (take k s) (match_at (p @ [Eol]) (b \<and> k = 0) (drop k s)) = Some (ps, rest)"
    by (auto simp: match_at.simps(2) dest: tries_Some_mem)
  then obtain qs where "match_at (p @ [Eol]) (b \<and> k = 0) (drop k s) = Some (qs, rest)"
    by (auto simp: push_Some_iff)
  then show ?case by (rule Cons.IH)
qed

lemma re_sub_no_match_False:
  "(\<And>s'. suffix s' s \<Longrightarrow> match_at p False s' = None) \<Longrightarrow> re_sub p repl False s = s"
proof (induction s)
  case Nil
  then show ?case by (simp add: re_sub_Nil_None)
next
  case (Cons c cs)
  have "re_sub p repl False cs = cs"
    by (rule Cons.IH) (simp add: Cons.prems suffix_ConsI)
  moreover have "match_at p False (c # cs) = None" by (simp add: Cons.prems)
  ultimately show ?case by (simp add: re_sub_Cons_None)
qed

lemma re_sub_Bol_False: "re_sub (Bol # p) repl False s = s"
  by (rule re_sub_no_match_False) (simp add: match_at_Bol)

lemma lower_char_ascii_other:
  "lower_char CHR ''<'' = CHR ''<''" "lower_char CHR ''>'' = CHR ''>''" "lower_char CHR 0x60 = CHR 0x60"
  "lower_char CHR ''x'' = CHR ''x''" "lower_char CHR ''m'' = CHR ''m''" "lower_char CHR ''l'' = CHR ''l''"
  by (simp_all add: lower_char_def ord_def)

lemma not_space_angle: "\<not> isspace CHR ''<''" "\<not> isspace CHR ''>''"
  by (simp_all add: isspace_def)

lemma fence_open_no_angle:
  "n \<in> set fence_open \<Longrightarrow> \<not> node_accepts n CHR ''<'' \<and> \<not> node_accepts n CHR ''>''"
  by (auto simp: fence_open_def lower_char_ascii_other not_space_angle)

lemma fence_close_no_angle:
  "n \<in> set fence_close \<Longrightarrow> \<not> node_accepts n CHR ''<'' \<and> \<not> node_accepts n CHR ''>''"
  by (auto simp: fence_close_def lower_char_ascii_other not_space_angle)

lemma fence_open_consumes:
  "match_at fence_open b s = Some (ps, rest) \<Longrightarrow> length rest < length s"
  unfolding fence_open_def
  by (auto simp: match_at_Bol push_Some_iff split: if_splits dest: match_at_One_consumes)

lemma fence_open_shape:
  "\<exists>p. s = p @ re_sub fence_open (Text []) True s \<and> CHR ''<'' \<notin> set p"
proof (cases "match_at fence_open True s")
  case None
  have "re_sub fence_open (Text []) True s = s"
  proof (cases s)
    case Nil
    with None show ?thesis by (simp add: re_sub_Nil_None)
  next
    case (Cons c cs)
    have "re_sub fence_open (Text []) False cs = cs"
      unfolding fence_open_def by (rule re_sub_Bol_False)
    with None Cons show ?thesis by (simp add: re_sub_Cons_None)
  qed
  then show ?thesis by simp
next
  case (Some x)
  obtain ps rest where x: "x = (ps, rest)" by (cases x)
  with Some have m: "match_at fence_open True s = Some (ps, rest)" by simp
  then have cat: "s = concat ps @ rest" by (rule match_at_concat)
  have na: "CHR ''<'' \<notin> set (concat ps)"
    using match_chars_accepted[OF m] fence_open_no_angle by blast
  have r: "re_sub fence_open (Text []) False rest = rest"
    unfolding fence_open_def by (rule re_sub_Bol_False)
  have len: "length rest < length s" using m by (rule fence_open_consumes)
  have "re_sub fence_open (Text []) True s = rest"
    using re_sub_Some[OF m len, of "Text []"] r by simp
  with cat na show ?thesis by auto
qed

lemma fence_close_consumes:
  "match_at fence_close b s = Some (ps, rest) \<Longrightarrow> length rest < length s"
  unfolding fence_close_def by (rule match_at_One_consumes)

lemma fence_close_first: "c \<noteq> CHR 0x60 \<Longrightarrow> match_at fence_close b (c # cs) = None"
  by (simp add: fence_close_def match_at_One lower_backtick)

lemma fence_close_Nil: "match_at fence_close b [] = None"
  by (simp add: fence_close_def match_at_One)

lemma fence_close_shape:
  "\<exists>pre q q'. s = pre @ q \<and> re_sub fence_close (Text []) b s = pre @ q' \<and>
      CHR ''>'' \<notin> set q \<and> CHR ''>'' \<notin> set q'"
proof (induction s arbitrary: b)
  case Nil
  have "re_sub fence_close (Text []) b [] = []" by (simp add: re_sub_Nil_None fence_close_Nil)
  then show ?case by simp
next
  case (Cons c cs)
  show ?case
  proof (cases "match_at fence_close b (c # cs)")
    case None
    from Cons.IH[of False] obtain pre q q' where
      p: "cs = pre @ q" "re_sub fence_close (Text []) False cs = pre @ q'"
         "CHR ''>'' \<notin> set q" "CHR ''>'' \<notin> set q'" by blast
    from None have "re_sub fence_close (Text []) b (c # cs) = c # re_sub fence_close (Text []) False cs"
      by (rule re_sub_Cons_None)
    with p have "c # cs = (c # pre) @ q \<and> re_sub fence_close (Text []) b (c # cs) = (c # pre) @ q'"
      by simp
    with p(3,4) show ?thesis by blast
  next
    case (Some x)
    obtain ps rest where x: "x = (ps, rest)" by (cases x)
    with Some have m: "match_at fence_close b (c # cs) = Some (ps, rest)" by simp
    then have cat: "c # cs = concat ps @ rest" by (rule match_at_concat)
    have "fence_close = [One (LitI CHR 0x60), One (LitI CHR 0x60), One (LitI CHR 0x60), Star Space] @ [Eol]"
      by (simp add: fence_close_def)
    with m have rest: "rest = [] \<or> rest = [CHR 0x0A]" by (metis match_Eol_rest)
    have na: "CHR ''>'' \<notin> set (concat ps)"
      using match_chars_accepted[OF m] fence_close_no_angle by blast
    have len: "length rest < length (c # cs)" using m by (rule fence_close_consumes)
    have r: "re_sub fence_close (Text []) False rest = rest"
      using rest by (auto simp: re_sub_Nil_None re_sub_Cons_None fence_close_Nil fence_close_first)
    have "re_sub fence_close (Text []) b (c # cs) = rest"
      using re_sub_Some[OF m len, of "Text []"] r by simp
    moreover from rest have nr: "CHR ''>'' \<notin> set rest" by auto
    moreover from nr na cat have "CHR ''>'' \<notin> set (c # cs)" by (metis Un_iff set_append)
    ultimately have "c # cs = [] @ (c # cs) \<and> re_sub fence_close (Text []) b (c # cs) = [] @ rest \<and>
      CHR ''>'' \<notin> set (c # cs) \<and> CHR ''>'' \<notin> set rest" by simp
    then show ?thesis by blast
  qed
qed

lemma prefix_append_last:
  "m \<noteq> [] \<Longrightarrow> last m \<notin> set q \<Longrightarrow> prefix m (t @ q) \<longleftrightarrow> prefix m t"
proof
  assume "prefix m t"
  then show "prefix m (t @ q)" by (rule prefix_prefix)
next
  assume ne: "m \<noteq> []" and l: "last m \<notin> set q" and p: "prefix m (t @ q)"
  from p have "prefix m t \<or> (\<exists>us. m = t @ us \<and> prefix us q)" by (auto simp: prefix_append)
  then show "prefix m t"
  proof
    assume "prefix m t" then show ?thesis .
  next
    assume "\<exists>us. m = t @ us \<and> prefix us q"
    then obtain us where us: "m = t @ us" "prefix us q" by blast
    show ?thesis
    proof (cases "us = []")
      case True
      with us show ?thesis by simp
    next
      case False
      with us(1) have "last m = last us" by simp
      moreover from False have "last us \<in> set us" by simp
      moreover from us(2) have "set us \<subseteq> set q" by (rule set_mono_prefix)
      ultimately show ?thesis using l by auto
    qed
  qed
qed

lemma find_sub_None_tail:
  "m \<noteq> [] \<Longrightarrow> last m \<notin> set q \<Longrightarrow> find_sub m q = None"
proof (induction q)
  case Nil
  then show ?case by simp
next
  case (Cons c q)
  have "\<not> prefix m (c # q)"
  proof
    assume "prefix m (c # q)"
    then have "set m \<subseteq> set (c # q)" by (rule set_mono_prefix)
    moreover from Cons.prems(1) have "last m \<in> set m" by simp
    ultimately show False using Cons.prems(2) by auto
  qed
  moreover from Cons have "find_sub m q = None" by simp
  ultimately show ?case by simp
qed

lemma find_sub_append:
  "m \<noteq> [] \<Longrightarrow> last m \<notin> set q \<Longrightarrow>
   find_sub m (u @ q) = map_option (\<lambda>(before, after). (before, after @ q)) (find_sub m u)"
proof (induction u)
  case Nil
  then show ?case by (simp add: find_sub_None_tail)
next
  case (Cons c u)
  have p: "prefix m ((c # u) @ q) \<longleftrightarrow> prefix m (c # u)"
    by (rule prefix_append_last[OF Cons.prems])
  show ?case
  proof (cases "prefix m (c # u)")
    case True
    then have "length m \<le> length (c # u)" by (rule prefix_length_le)
    then have "drop (length m) ((c # u) @ q) = drop (length m) (c # u) @ q"
      by (subst drop_append) simp
    with True p show ?thesis by simp
  next
    case False
    with p have "\<not> prefix m (c # u @ q)" by simp
    with False Cons.IH[OF Cons.prems] show ?thesis
      by (simp add: option.map_comp comp_def split_beta')
  qed
qed

lemma last_markers: "last start_marker = CHR ''>''" "last end_marker = CHR ''>''"
  "start_marker \<noteq> []" "end_marker \<noteq> []" "hd start_marker = CHR ''<''"
  by (simp_all add: start_marker_def end_marker_def)

lemma region_at_append: "CHR ''>'' \<notin> set q \<Longrightarrow> region_at (t @ q) = region_at t"
proof -
  assume q: "CHR ''>'' \<notin> set q"
  have p: "prefix start_marker (t @ q) \<longleftrightarrow> prefix start_marker t"
    by (rule prefix_append_last) (simp_all add: last_markers q)
  show ?thesis
  proof (cases "prefix start_marker t")
    case False
    with p show ?thesis by (simp add: region_at_def)
  next
    case True
    then have "length start_marker \<le> length t" by (rule prefix_length_le)
    then have d: "drop (length start_marker) (t @ q) = drop (length start_marker) t @ q" by simp
    have "find_sub end_marker (drop (length start_marker) t @ q) =
            map_option (\<lambda>(before, after). (before, after @ q)) (find_sub end_marker (drop (length start_marker) t))"
      by (rule find_sub_append) (simp_all add: last_markers q)
    with True p d show ?thesis
      by (simp add: region_at_def option.map_comp comp_def split_beta')
  qed
qed

lemma region_at_Nil: "region_at [] = None"
  by (simp add: region_at_def start_marker_def)

lemma region_at_first: "c \<noteq> CHR ''<'' \<Longrightarrow> region_at (c # t) = None"
  by (simp add: region_at_def start_marker_def)

lemma first_region_no_gt: "CHR ''>'' \<notin> set q \<Longrightarrow> first_region q = None"
proof (induction q)
  case Nil
  then show ?case by (simp add: region_at_Nil)
next
  case (Cons c q)
  have "region_at ([] @ (c # q)) = region_at []" by (rule region_at_append[OF Cons.prems])
  then have "region_at (c # q) = None" by (simp add: region_at_Nil)
  with Cons show ?case by simp
qed

lemma first_region_append: "CHR ''>'' \<notin> set q \<Longrightarrow> first_region (t @ q) = first_region t"
proof (induction t)
  case Nil
  then show ?case by (simp add: first_region_no_gt region_at_Nil)
next
  case (Cons c t)
  have "region_at ((c # t) @ q) = region_at (c # t)" by (rule region_at_append[OF Cons.prems])
  with Cons show ?case by (simp split: option.splits)
qed

lemma first_region_prepend: "CHR ''<'' \<notin> set p \<Longrightarrow> first_region (p @ t) = first_region t"
proof (induction p)
  case Nil
  then show ?case by simp
next
  case (Cons c p)
  then have "c \<noteq> CHR ''<''" by auto
  then have "region_at (c # p @ t) = None" by (rule region_at_first)
  with Cons show ?case by simp
qed

lemma first_region_fences:
  "first_region (re_sub fence_close (Text []) True (re_sub fence_open (Text []) True s)) = first_region s"
proof -
  let ?r1 = "re_sub fence_open (Text []) True s"
  let ?r2 = "re_sub fence_close (Text []) True ?r1"
  from fence_open_shape[of s] obtain p where p: "s = p @ ?r1" "CHR ''<'' \<notin> set p" by blast
  from fence_close_shape[of ?r1 True] obtain pre q q' where
    q: "?r1 = pre @ q" "?r2 = pre @ q'"
       "CHR ''>'' \<notin> set q" "CHR ''>'' \<notin> set q'" by blast
  have "first_region ?r2 = first_region (pre @ q')" by (simp only: q(2))
  also have "\<dots> = first_region pre" by (rule first_region_append[OF q(4)])
  also have "\<dots> = first_region (pre @ q)" by (rule first_region_append[OF q(3), symmetric])
  also have "\<dots> = first_region ?r1" by (simp only: q(1)[symmetric])
  also have "\<dots> = first_region (p @ ?r1)" by (rule first_region_prepend[OF p(2), symmetric])
  also have "\<dots> = first_region s" by (simp only: p(1)[symmetric])
  finally show ?thesis .
qed

lemma ord_inj: "ord c = ord d \<longleftrightarrow> c = d"
  by (simp add: ord_def)

lemma control_char_accepts:
  "accepts (Cls [RangeItem (CHR 0x00) (CHR 0x08), CharItem (CHR 0x0B), CharItem (CHR 0x0C),
                 RangeItem (CHR 0x0E) (CHR 0x1F), CharItem (CHR 0x7F)]) c \<longleftrightarrow> is_control c"
proof -
  have e: "c = CHR 0x0B \<longleftrightarrow> ord c = 11" "c = CHR 0x0C \<longleftrightarrow> ord c = 12" "c = CHR 0x7F \<longleftrightarrow> ord c = 127"
    "c = CHR 0x09 \<longleftrightarrow> ord c = 9" "c = CHR 0x0A \<longleftrightarrow> ord c = 10" "c = CHR 0x0D \<longleftrightarrow> ord c = 13"
    using ord_inj[of c "CHR 0x0B"] ord_inj[of c "CHR 0x0C"] ord_inj[of c "CHR 0x7F"]
      ord_inj[of c "CHR 0x09"] ord_inj[of c "CHR 0x0A"] ord_inj[of c "CHR 0x0D"]
    by (simp_all add: ord_def)
  have o: "ord (CHR 0x00) = 0" "ord (CHR 0x08) = 8" "ord (CHR 0x0E) = 14" "ord (CHR 0x1F) = 31"
    by (simp_all add: ord_def)
  show ?thesis
    unfolding is_control_def e by (simp add: e o) arith
qed

lemma re_sub_One_filter:
  "re_sub [One a] (Text []) b s = filter (\<lambda>c. \<not> accepts a c) s"
proof (induction s arbitrary: b)
  case Nil
  show ?case by (simp add: re_sub_Nil_None match_at_One)
next
  case (Cons c cs)
  show ?case
  proof (cases "accepts a c")
    case True
    then have m: "match_at [One a] b (c # cs) = Some ([[c]], cs)" by (simp add: match_at_One)
    have "re_sub [One a] (Text []) b (c # cs) = expand (Text []) [[c]] @ re_sub [One a] (Text []) False cs"
      by (rule re_sub_Some[OF m]) simp
    with True Cons show ?thesis by simp
  next
    case False
    then have "match_at [One a] b (c # cs) = None" by (simp add: match_at_One)
    with False Cons show ?thesis by (simp add: re_sub_Cons_None)
  qed
qed

lemma control_removed:
  "re_sub control_char (Text []) b s = filter (\<lambda>c. \<not> is_control c) s"
  unfolding control_char_def re_sub_One_filter control_char_accepts ..

lemma strip_Nil_iff: "strip s = [] \<longleftrightarrow> blank s"
proof
  assume b: "blank s"
  then have d: "dropWhile isspace s = []" by (simp add: blank_def)
  show "strip s = []" unfolding strip_def d by simp
next
  assume "strip s = []"
  then have e: "dropWhile isspace (rev (dropWhile isspace s)) = []" by (simp add: strip_def)
  have "dropWhile isspace s = []"
  proof (rule ccontr)
    assume ne: "dropWhile isspace s \<noteq> []"
    then have "\<not> isspace (hd (dropWhile isspace s))" by (rule hd_dropWhile)
    moreover from ne have "hd (dropWhile isspace s) \<in> set (rev (dropWhile isspace s))" by simp
    ultimately show False using e by auto
  qed
  then show "blank s" by (simp add: blank_def)
qed

lemma extract_eq:
  "extract_wiki_structure_xml s =
     (if blank s then Inl (ValueError ''Wiki structure response is empty'')
      else case first_region s of
             None \<Rightarrow> Inl (ValueError ''No valid XML structure found in AI response'')
           | Some r \<Rightarrow> Inr (filter (\<lambda>c. \<not> is_control c) r))"
proof (cases "blank s")
  case True
  then have "s = [] \<or> strip s = []" by (simp add: strip_Nil_iff)
  with True show ?thesis by (simp add: extract_wiki_structure_xml_def)
next
  case False
  then have ns: "\<not> (s = [] \<or> strip s = [])" by (auto simp: strip_Nil_iff blank_def)
  let ?r2 = "re_sub fence_close (Text []) True (re_sub fence_open (Text []) True s)"
  have fr: "map_option (\<lambda>(pre, ps, rest). concat ps) (re_search wiki_block True ?r2) = first_region s"
    by (simp only: search_wiki_block first_region_fences)
  show ?thesis
  proof (cases "re_search wiki_block True ?r2")
    case None
    with fr have "first_region s = None" by simp
    with None ns False show ?thesis by (simp add: extract_wiki_structure_xml_def Let_def)
  next
    case (Some x)
    obtain pre ps rest where x: "x = (pre, ps, rest)" by (cases x)
    with Some fr have "first_region s = Some (concat ps)" by simp
    with Some x ns False show ?thesis
      by (simp add: extract_wiki_structure_xml_def Let_def control_removed)
  qed
qed

lemma find_sub_Some_append: "find_sub m (a @ m @ b) \<noteq> None"
proof (induction a)
  case Nil
  have p: "prefix m (m @ b)" by simp
  show ?case
  proof (cases "m @ b")
    case Nil
    then show ?thesis by simp
  next
    case (Cons c cs)
    with p have "prefix m (c # cs)" by simp
    with Cons show ?thesis by simp
  qed
next
  case (Cons c a)
  then show ?case by auto
qed

lemma find_sub_decomp: "find_sub m s = Some (before, after) \<Longrightarrow> s = before @ m @ after"
proof (induction s arbitrary: before)
  case Nil
  then show ?case by (auto split: if_splits)
next
  case (Cons c s)
  show ?case
  proof (cases "prefix m (c # s)")
    case True
    with Cons.prems have "before = []" "after = drop (length m) (c # s)" by auto
    moreover from True have "c # s = m @ drop (length m) (c # s)"
      by (metis append_eq_conv_conj prefix_def)
    ultimately show ?thesis by simp
  next
    case False
    with Cons.prems obtain b' where b': "find_sub m s = Some (b', after)" "before = c # b'"
      by auto
    from Cons.IH[OF b'(1)] b'(2) show ?thesis by simp
  qed
qed

lemma region_at_Some_iff:
  "region_at s \<noteq> None \<longleftrightarrow> (\<exists>body post. s = start_marker @ body @ end_marker @ post)"
proof
  assume "region_at s \<noteq> None"
  then have p: "prefix start_marker s"
    and f: "find_sub end_marker (drop (length start_marker) s) \<noteq> None"
    by (auto simp: region_at_def split: if_splits)
  from f obtain body post where "find_sub end_marker (drop (length start_marker) s) = Some (body, post)"
    by auto
  then have "drop (length start_marker) s = body @ end_marker @ post" by (rule find_sub_decomp)
  moreover from p have "s = start_marker @ drop (length start_marker) s"
    by (metis append_eq_conv_conj prefix_def)
  ultimately show "\<exists>body post. s = start_marker @ body @ end_marker @ post" by metis
next
  assume "\<exists>body post. s = start_marker @ body @ end_marker @ post"
  then obtain body post where s: "s = start_marker @ body @ end_marker @ post" by blast
  then have "prefix start_marker s" by simp
  moreover from s have "drop (length start_marker) s = body @ end_marker @ post" by simp
  ultimately show "region_at s \<noteq> None"
    by (simp add: region_at_def find_sub_Some_append)
qed

lemma first_region_Some_iff: "first_region s \<noteq> None \<longleftrightarrow> has_fragment s"
proof (induction s)
  case Nil
  have "\<not> has_fragment []" by (simp add: has_fragment_def start_marker_def)
  then show ?case by (simp add: region_at_Nil)
next
  case (Cons c s)
  have "has_fragment (c # s) \<longleftrightarrow> region_at (c # s) \<noteq> None \<or> has_fragment s"
  proof
    assume "has_fragment (c # s)"
    then obtain pre body post where d: "c # s = pre @ start_marker @ body @ end_marker @ post"
      by (auto simp: has_fragment_def)
    show "region_at (c # s) \<noteq> None \<or> has_fragment s"
    proof (cases pre)
      case Nil
      with d show ?thesis using region_at_Some_iff[of "c # s"] by auto
    next
      case (Cons c' pre')
      with d have "s = pre' @ start_marker @ body @ end_marker @ post" by simp
      then show ?thesis by (auto simp: has_fragment_def)
    qed
  next
    assume "region_at (c # s) \<noteq> None \<or> has_fragment s"
    then show "has_fragment (c # s)"
    proof
      assume "region_at (c # s) \<noteq> None"
      then obtain body post where "c # s = [] @ start_marker @ body @ end_marker @ post"
        using region_at_Some_iff[of "c # s"] by auto
      then show ?thesis unfolding has_fragment_def by blast
    next
      assume "has_fragment s"
      then obtain pre body post where "s = pre @ start_marker @ body @ end_marker @ post"
        by (auto simp: has_fragment_def)
      then have "c # s = (c # pre) @ start_marker @ body @ end_marker @ post" by simp
      then show ?thesis unfolding has_fragment_def by blast
    qed
  qed
  with Cons show ?case by (auto split: option.splits)
qed

lemma first_region_shape:
  "first_region s = Some r \<Longrightarrow> \<exists>body. r = start_marker @ body @ end_marker"
proof (induction s)
  case Nil
  then show ?case by (simp add: region_at_Nil)
next
  case (Cons c s)
  show ?case
  proof (cases "region_at (c # s)")
    case None
    with Cons show ?thesis by simp
  next
    case (Some x)
    with Cons.prems have "region_at (c # s) = Some r" by simp
    then show ?thesis by (auto simp: region_at_def split: if_splits)
  qed
qed

lemma fragment_not_blank: "has_fragment s \<Longrightarrow> \<not> blank s"
proof -
  assume "has_fragment s"
  then have "CHR ''<'' \<in> set s" by (auto simp: has_fragment_def start_marker_def)
  moreover have "\<not> isspace CHR ''<''" by (simp add: isspace_def ord_def)
  ultimately show ?thesis by (auto simp: blank_def)
qed

lemma markers_no_control:
  "filter (\<lambda>c. \<not> is_control c) start_marker = start_marker"
  "filter (\<lambda>c. \<not> is_control c) end_marker = end_marker"
  by (simp_all add: start_marker_def end_marker_def is_control_def ord_def)

lemma strip_region: "strip (start_marker @ body @ end_marker) = start_marker @ body @ end_marker"
proof (rule strip_fixed)
  have "\<not> isspace (hd (start_marker @ body @ end_marker))"
    by (simp add: start_marker_def isspace_def ord_def)
  moreover have "\<not> isspace (last (start_marker @ body @ end_marker))"
    by (simp add: end_marker_def isspace_def ord_def)
  ultimately show "start_marker @ body @ end_marker = [] \<or>
    (\<not> isspace (hd (start_marker @ body @ end_marker)) \<and>
     \<not> isspace (last (start_marker @ body @ end_marker)))" by simp
qed

section \<open>The content normaliser: claims\<close>

text \<open>
  Claim C8. The substitution of line 112 (blank lines collapsed to one) never changes
  anything: whatever the input, the text that leaves the white-space collapse of line 109
  contains no newline, and \<open>clean_and_format_content\<close> returns what the pipeline
  without that substitution returns (the final \<^verbatim>\<open>strip()\<close> is kept).
\<close>

theorem C8_recollapse_is_noop:
  "CHR 0x0A \<notin> set (spaces_collapsed (markup_removed x)) \<and>
   re_sub blank_lines (Text [CHR 0x0A, CHR 0x0A]) True (spaces_collapsed (markup_removed x))
     = spaces_collapsed (markup_removed x) \<and>
   clean_and_format_content x = clean_without_recollapse x"
  by (simp add: clean_and_format_content_def clean_without_recollapse_def
      no_newline_spaces_collapsed blank_lines_noop)

theorem C8_recollapse_is_noop_witness:
  "CHR 0x0A \<notin> set (spaces_collapsed (markup_removed [CHR ''a'', CHR 0x0A, CHR 0x0A, CHR ''b''])) \<and>
   clean_and_format_content [CHR ''a'', CHR 0x0A, CHR 0x0A, CHR ''b'']
     = clean_without_recollapse [CHR ''a'', CHR 0x0A, CHR 0x0A, CHR ''b'']"
  using C8_recollapse_is_noop [of "[CHR ''a'', CHR 0x0A, CHR 0x0A, CHR ''b'']"] by simp

text \<open>
  Claim C5 says that the output of \<open>clean_and_format_content\<close> never contains
  \<^verbatim>\<open><details>\<close>, \<^verbatim>\<open>![\<close> or a raw tag pattern. The second part fails: line 103 deletes
  complete image markup \<^verbatim>\<open>![alt](target)\<close> only, so the input \<^verbatim>\<open>![\<close> comes back as it is.
\<close>

theorem C5_image_opener_survives:
  "sublist ''!['' (clean_and_format_content ''!['')"
  by code_simp

text \<open>
  Claim C5, amended. Whatever the input, the output of \<open>clean_and_format_content\<close>
  contains no \<^verbatim>\<open><\<close> with a \<^verbatim>\<open>>\<close> behind it (no raw tag pattern), and so it does not contain
  \<^verbatim>\<open><details>\<close>.
\<close>

theorem C5_no_tag_in_output:
  "\<not> has_tag (clean_and_format_content x) \<and> \<not> sublist ''<details>'' (clean_and_format_content x)"
  using no_tag_clean sublist_details_has_tag by blast

theorem C5_no_tag_in_output_witness:
  "\<not> has_tag (clean_and_format_content ''a <b>c</b> <details> d'') \<and>
   \<not> sublist ''<details>'' (clean_and_format_content ''a <b>c</b> <details> d'') \<and>
   clean_and_format_content ''a <b>c</b> <details> d'' = ''a c d''"
proof -
  have "clean_and_format_content ''a <b>c</b> <details> d'' = ''a c d''" by code_simp
  with C5_no_tag_in_output [of "''a <b>c</b> <details> d''"] show ?thesis by simp
qed

text \<open>
  Claim C2 says that cleaning is idempotent on every string. It is not: a substitution can
  bring two halves of a markup together that an earlier line has already passed. On
  \<^verbatim>\<open>[[a](http://b)](http://c)\<close> line 104 unwraps the first link it finds and leaves
  \<^verbatim>\<open>[a](http://c)\<close>, which a second pass unwraps to \<^verbatim>\<open>a\<close>.
\<close>

theorem C2_second_pass_differs:
  "clean_and_format_content (clean_and_format_content ''[[a](http://b)](http://c)'')
     \<noteq> clean_and_format_content ''[[a](http://b)](http://c)''"
proof -
  have 1: "clean_and_format_content ''[[a](http://b)](http://c)'' = ''[a](http://c)''" by code_simp
  have 2: "clean_and_format_content ''[a](http://c)'' = ''a''" by code_simp
  show ?thesis unfolding 1 2 by simp
qed

text \<open>
  Claim C2, amended. When none of the patterns of lines 102, 103, 104 and 106 (the sources
  marker, image markup, link markup, the diagram block) matches anywhere in the cleaned text,
  cleaning it again returns it unchanged: \<open>clean_and_format_content
  (clean_and_format_content x) = clean_and_format_content x\<close>. Brackets and backticks that
  form no such markup, as in \<^verbatim>\<open>a[i]\<close>, do not matter.
\<close>

theorem C2_idempotent_without_markup:
  assumes "\<not> markup_left (clean_and_format_content x)"
  shows "clean_and_format_content (clean_and_format_content x) = clean_and_format_content x"
  by (rule clean_fixed) (rule markup_removed_fixed[OF no_tag_clean assms])

theorem C2_idempotent_without_markup_witness:
  "\<not> markup_left (clean_and_format_content ''see [1] or  a[i], use `foo()` <b>now</b>'') \<and>
   clean_and_format_content ''see [1] or  a[i], use `foo()` <b>now</b>''
     = ''see [1] or a[i], use `foo()` now'' \<and>
   clean_and_format_content (clean_and_format_content ''see [1] or  a[i], use `foo()` <b>now</b>'')
     = clean_and_format_content ''see [1] or  a[i], use `foo()` <b>now</b>''"
proof -
  have e: "clean_and_format_content ''see [1] or  a[i], use `foo()` <b>now</b>''
             = ''see [1] or a[i], use `foo()` now''" by code_simp
  have "\<not> markup_left ''see [1] or a[i], use `foo()` now''" by code_simp
  then have 1: "\<not> markup_left (clean_and_format_content ''see [1] or  a[i], use `foo()` <b>now</b>'')"
    unfolding e .
  from C2_idempotent_without_markup [OF 1] 1 e show ?thesis by simp
qed

section \<open>The structure extractor: claims\<close>

text \<open>
  Claim C6. \<open>extract_wiki_structure_xml\<close> raises the \<^verbatim>\<open>ValueError\<close> of line 37 (empty
  response) exactly when the response is empty or consists of white space only; it raises
  the \<^verbatim>\<open>ValueError\<close> of line 51 (no structure found) exactly when the response is not
  blank and contains no start marker with an end marker behind it; and it returns a fragment
  in exactly the remaining case. The two exceptions of the module are told apart by their
  messages.
\<close>

theorem C6_errors:
  "(extract_wiki_structure_xml raw = Inl (ValueError ''Wiki structure response is empty'')
      \<longleftrightarrow> blank raw) \<and>
   (extract_wiki_structure_xml raw = Inl (ValueError ''No valid XML structure found in AI response'')
      \<longleftrightarrow> \<not> blank raw \<and> \<not> has_fragment raw) \<and>
   ((\<exists>fragment. extract_wiki_structure_xml raw = Inr fragment)
      \<longleftrightarrow> \<not> blank raw \<and> has_fragment raw)"
proof (cases "blank raw")
  case True
  then show ?thesis by (simp add: extract_eq)
next
  case False
  show ?thesis
  proof (cases "first_region raw")
    case None
    then have "\<not> has_fragment raw" using first_region_Some_iff[of raw] by simp
    with None False show ?thesis by (simp add: extract_eq)
  next
    case (Some r)
    then have "has_fragment raw" using first_region_Some_iff[of raw] by simp
    with Some False show ?thesis by (simp add: extract_eq)
  qed
qed

theorem C6_errors_witness:
  "extract_wiki_structure_xml '''' = Inl (ValueError ''Wiki structure response is empty'') \<and>
   extract_wiki_structure_xml ''   '' = Inl (ValueError ''Wiki structure response is empty'') \<and>
   extract_wiki_structure_xml ''no structure here''
     = Inl (ValueError ''No valid XML structure found in AI response'')"
proof -
  have b: "blank ''''" "blank ''   ''" by (simp_all add: blank_def isspace_def ord_def)
  have n: "\<not> blank ''no structure here''" by (simp add: blank_def isspace_def ord_def)
  have "first_region ''no structure here'' = None" by code_simp
  then have f: "\<not> has_fragment ''no structure here''"
    using first_region_Some_iff[of "''no structure here''"] by simp
  from C6_errors[of "''''"] C6_errors[of "''   ''"] C6_errors[of "''no structure here''"] b n f
  show ?thesis by blast
qed

text \<open>
  Claim C7. When the response contains a start marker with an end marker behind it,
  \<open>extract_wiki_structure_xml\<close> returns the first delimited region (the first start marker,
  the shortest body, the end marker) with the characters \<^verbatim>\<open>\x00-\x08\<close>, \<^verbatim>\<open>\x0B\<close>, \<^verbatim>\<open>\x0C\<close>,
  \<^verbatim>\<open>\x0E-\x1F\<close> and \<^verbatim>\<open>\x7F\<close> removed and nothing else changed; the stripped result starts with
  the start marker and ends with the end marker. The removal of the code fences before the
  search never changes which region is found. A region with an empty body is returned like
  any other.
\<close>

theorem C7_first_region:
  assumes "has_fragment raw"
  shows "\<exists>region. first_region raw = Some region \<and>
           extract_wiki_structure_xml raw = Inr (filter (\<lambda>c. \<not> is_control c) region) \<and>
           prefix start_marker (strip (filter (\<lambda>c. \<not> is_control c) region)) \<and>
           suffix end_marker (strip (filter (\<lambda>c. \<not> is_control c) region))"
proof -
  from assms obtain region where r: "first_region raw = Some region"
    using first_region_Some_iff[of raw] by auto
  from assms have nb: "\<not> blank raw" by (rule fragment_not_blank)
  from r obtain body where b: "region = start_marker @ body @ end_marker"
    using first_region_shape by blast
  let ?f = "filter (\<lambda>c. \<not> is_control c)"
  have f: "?f region = start_marker @ ?f body @ end_marker"
    by (simp add: b markers_no_control)
  have s: "strip (?f region) = start_marker @ ?f body @ end_marker"
    unfolding f by (rule strip_region)
  have "prefix start_marker (strip (?f region))" unfolding s by simp
  moreover have "suffix end_marker (strip (?f region))"
    unfolding s by (simp add: suffix_def)
  moreover have "extract_wiki_structure_xml raw = Inr (?f region)"
    using r nb by (simp add: extract_eq)
  ultimately show ?thesis using r by blast
qed

theorem C7_first_region_witness:
  "has_fragment ''<wiki_structure></wiki_structure>'' \<and>
   extract_wiki_structure_xml ''<wiki_structure></wiki_structure>''
     = Inr ''<wiki_structure></wiki_structure>''"
proof -
  let ?s = "''<wiki_structure></wiki_structure>''"
  have "?s = [] @ start_marker @ [] @ end_marker @ []"
    by (simp add: start_marker_def end_marker_def)
  then have h: "has_fragment ?s" unfolding has_fragment_def by blast
  have fr: "first_region ?s = Some ?s" by code_simp
  have fl: "filter (\<lambda>c. \<not> is_control c) ?s = ?s" by (simp add: is_control_def ord_def)
  from C7_first_region[OF h] fr fl have "extract_wiki_structure_xml ?s = Inr ?s" by auto
  with h show ?thesis by simp
qed

end
